theory Spec2Isabelle
  imports Main
begin

section \<open>Strings and characters of the JavaScript runtime\<close>

text \<open>
  A JavaScript string is modelled as a \<^typ>\<open>string\<close>: the list of its code units, each
  below 256. Every character that a pattern of the program names is ASCII.
  The line feed is \<open>CHR 0x0A\<close>, the double quote \<open>CHR 0x22\<close>.
\<close>

definition NL :: char where
  "NL = CHR 0x0A"

definition DQ :: char where
  "DQ = CHR 0x22"

text \<open>
  The white space of \<open>\s\<close> and of \<open>String.prototype.trim\<close>: TAB, LF, VT, FF, CR, SP
  and NBSP are the white space and line terminator code units below 256.
\<close>

definition isSpace :: "char \<Rightarrow> bool" where
  "isSpace c = (c \<in> set [CHR 0x09, CHR 0x0A, CHR 0x0B, CHR 0x0C, CHR 0x0D, CHR 0x20, CHR 0xA0])"

definition isDigit :: "char \<Rightarrow> bool" where
  "isDigit c = (c \<in> set ''0123456789'')"

definition isWordChar :: "char \<Rightarrow> bool" where
  "isWordChar c =
     (c \<in> set ''abcdefghijklmnopqrstuvwxyzABCDEFGHIJKLMNOPQRSTUVWXYZ0123456789_'')"

text \<open>The line terminators that \<open>.\<close> refuses: LF and CR (the others are above 255).\<close>

definition isLineTerminator :: "char \<Rightarrow> bool" where
  "isLineTerminator c = (c = CHR 0x0A \<or> c = CHR 0x0D)"

text \<open>
  \<open>Canonicalize\<close> of a pattern with the \<open>i\<close> flag and without the \<open>u\<close> flag: the
  upper case of the code unit. A code unit above 127 is never canonicalized to an ASCII one,
  and the patterns below compare with ASCII characters only, so the mapping is written out
  for the ASCII letters.
\<close>

definition lowerLetters :: string where
  "lowerLetters = ''abcdefghijklmnopqrstuvwxyz''"

definition upperLetters :: string where
  "upperLetters = ''ABCDEFGHIJKLMNOPQRSTUVWXYZ''"

definition canon :: "char \<Rightarrow> char" where
  "canon c = (case map_of (zip lowerLetters upperLetters) c of Some u \<Rightarrow> u | None \<Rightarrow> c)"

lemma canon_code [code]:
  "canon (Char b0 b1 b2 b3 b4 b5 b6 b7) =
     (if \<not> b7 \<and> b6 \<and> b5 \<and> (b0 \<or> b1 \<or> b2 \<or> b3 \<or> b4) \<and> \<not> (b4 \<and> b3 \<and> (b2 \<or> (b1 \<and> b0)))
      then Char b0 b1 b2 b3 b4 False b6 b7
      else Char b0 b1 b2 b3 b4 b5 b6 b7)"
  by (cases b0; cases b1; cases b2; cases b3; cases b4; cases b5; cases b6; cases b7)
     (simp_all add: canon_def lowerLetters_def upperLetters_def)

text \<open>\<open>toUpperCase\<close>, applied by the program to one letter matched by \<open>[A-D]\<close> only.\<close>

definition toUpperCase :: "string \<Rightarrow> string" where
  "toUpperCase s = map canon s"

definition trim :: "string \<Rightarrow> string" where
  "trim s = rev (dropWhile isSpace (rev (dropWhile isSpace s)))"

text \<open>
  A Number that \<open>parseInt\<close> returns for a text of decimal digits: an integer that a double
  represents, \<open>Infinity\<close>, or \<open>NaN\<close>.
\<close>

datatype number = Finite nat | Infinity | NaN

text \<open>The number of binary digits of an integer.\<close>

fun bitLength :: "nat \<Rightarrow> nat" where
  "bitLength n = (if n = 0 then 0 else Suc (bitLength (n div 2)))"

declare bitLength.simps [simp del]

text \<open>
  The Number value of a non-negative integer: the integer itself when it has at most 53 binary
  digits (it is below \<open>2^53\<close>), otherwise the nearest integer with 53 significant binary
  digits, the even one of two that are equally near, and \<open>Infinity\<close> from \<open>2^1024\<close> on.
\<close>

definition toNumber :: "nat \<Rightarrow> number" where
  "toNumber n =
     (if bitLength n \<le> 53 then Finite n
      else
        let e = bitLength n - 53;
            q = n div 2 ^ e;
            r = n mod 2 ^ e;
            q = (if 2 ^ e < 2 * r \<or> (2 * r = 2 ^ e \<and> odd q) then q + 1 else q)
        in if 2 ^ 1024 \<le> q * 2 ^ e then Infinity else Finite (q * 2 ^ e))"

text \<open>
  \<open>parseInt\<close> of a text that begins with its decimal digits, as the captures of \<open>\d+\<close> and
  of \<open>[1-6]\<close> that the program passes do: the digits are read as an integer, which is then
  rounded to a Number; without a digit the result is \<open>NaN\<close>. (The language lets an
  implementation read every digit after the 20th as 0; here all digits count.)
\<close>

definition digitVal :: "char \<Rightarrow> nat" where
  "digitVal c = (case map_of (zip ''0123456789'' [0, 1, 2, 3, 4, 5, 6, 7, 8, 9]) c of
                   Some d \<Rightarrow> d | None \<Rightarrow> 0)"

definition parseInt :: "string \<Rightarrow> number" where
  "parseInt ds =
     (if takeWhile isDigit ds = [] then NaN
      else toNumber (foldl (\<lambda>n c. 10 * n + digitVal c) 0 (takeWhile isDigit ds)))"

text \<open>\<open>Array.prototype.join\<close>.\<close>

fun join :: "string \<Rightarrow> string list \<Rightarrow> string" where
  "join sep [] = []"
| "join sep [x] = x"
| "join sep (x # y # ys) = x @ sep @ join sep (y # ys)"

text \<open>\<open>content.split('\n')\<close>: the lines of a string; the empty string has one empty line.\<close>

fun splitLines :: "string \<Rightarrow> string list" where
  "splitLines [] = [[]]"
| "splitLines (c # cs) =
     (if c = NL then [] # splitLines cs
      else (case splitLines cs of
              l # ls \<Rightarrow> (c # l) # ls
            | [] \<Rightarrow> [[c]]))"

section \<open>Regular expressions: a backtracking matcher\<close>

text \<open>
  The patterns of the program use literals, classes, \<open>.\<close>, greedy and lazy repetition,
  alternation, capture groups, a backreference, lookahead, \<open>^\<close>, \<open>$\<close> and \<open>\b\<close>.
  No pattern has the \<open>m\<close>, \<open>s\<close> or \<open>u\<close> flag.
\<close>

datatype catom = AChr char | ASpace | ANonSpace | ADigit

fun atom_mem :: "bool \<Rightarrow> catom \<Rightarrow> char \<Rightarrow> bool" where
  "atom_mem i (AChr p) c = (if i then canon c = canon p else c = p)"
| "atom_mem i ASpace c = isSpace c"
| "atom_mem i ANonSpace c = (\<not> isSpace c)"
| "atom_mem i ADigit c = isDigit c"

definition cls_mem :: "bool \<Rightarrow> catom list \<Rightarrow> char \<Rightarrow> bool" where
  "cls_mem i as c = list_ex (\<lambda>a. atom_mem i a c) as"

datatype regex =
    Lit string
  | Cls "catom list"
  | NCls "catom list"
  | Dot
  | Cat "regex list"
  | Alt regex regex
  | Star regex
  | LazyStar regex
  | Group nat regex
  | Backref nat
  | Ahead regex
  | NotAhead regex
  | Bol
  | Eol
  | WordB

text \<open>
  The state of a match (the \<open>MatchState\<close> of the language definition): the character before
  the current position (\<open>None\<close> at index 0), the input from the current position on, and the
  captures made so far, each kept as the input at its start and the input at its end.
\<close>

record mstate =
  prev :: "char option"
  rest :: string
  caps :: "nat \<rightharpoonup> string \<times> string"

definition step :: "char \<Rightarrow> string \<Rightarrow> mstate \<Rightarrow> mstate" where
  "step c cs s = s\<lparr>prev := Some c, rest := cs\<rparr>"

text \<open>The text between two positions of the input, each given by the input from there on.\<close>

definition slice :: "string \<times> string \<Rightarrow> string" where
  "slice p = take (length (fst p) - length (snd p)) (fst p)"

text \<open>A literal text, character by character.\<close>

fun eat :: "bool \<Rightarrow> string \<Rightarrow> mstate \<Rightarrow> mstate option" where
  "eat i [] s = Some s"
| "eat i (p # ps) s =
     (case rest s of
        [] \<Rightarrow> None
      | c # cs \<Rightarrow> if (if i then canon c = canon p else c = p) then eat i ps (step c cs s) else None)"

definition wordAt :: "char option \<Rightarrow> bool" where
  "wordAt x = (case x of None \<Rightarrow> False | Some c \<Rightarrow> isWordChar c)"

definition peek :: "mstate \<Rightarrow> char option" where
  "peek s = (case rest s of [] \<Rightarrow> None | c # _ \<Rightarrow> Some c)"

text \<open>
  The matcher of the language definition calls a pattern with a state and a continuation, and
  backtracks into the pattern when the continuation fails. Here the continuation is the list
  of what is still to be matched: patterns, the check at the end of an iteration of a
  repetition (\<open>Again\<close> with the input at the start of the iteration), and the end of a group
  (\<open>Close\<close> with the input at the start of the group).
\<close>

datatype item = Re regex | Again regex string | Close nat string

text \<open>The measure of the matcher: the input left, then the work left in the continuation.\<close>

fun weight :: "nat \<Rightarrow> item \<Rightarrow> nat" where
  "weight n (Re r) = 2 * size r + 2"
| "weight n (Again r st) = (if n < length st then 2 * size r + 3 else 1)"
| "weight n (Close m st) = 1"

lemma eat_length: "eat i ps s = Some e \<Longrightarrow> length (rest e) \<le> length (rest s)"
proof (induction ps arbitrary: s)
  case Nil
  then show ?case by simp
next
  case (Cons p ps)
  show ?case
  proof (cases "rest s")
    case Nil
    with Cons.prems show ?thesis by simp
  next
    case (Cons c cs)
    with Cons.prems have "eat i ps (step c cs s) = Some e"
      by (simp split: if_splits)
    from Cons.IH [OF this] show ?thesis using Cons by (simp add: step_def)
  qed
qed

text \<open>
  \<open>run i k s\<close> is the state in which the first successful way of matching all of \<open>k\<close> from
  \<open>s\<close> ends, or \<open>None\<close> when every way fails; \<open>i\<close> is the \<open>i\<close> flag. A repetition gives up
  an iteration that consumed nothing, as \<open>RepeatMatcher\<close> does.
\<close>

function (sequential) run :: "bool \<Rightarrow> item list \<Rightarrow> mstate \<Rightarrow> mstate option" where
  "run i [] s = Some s"
| "run i (Re (Lit ps) # k) s =
     (case eat i ps s of None \<Rightarrow> None | Some e \<Rightarrow> run i k e)"
| "run i (Re (Cls as) # k) s =
     (case rest s of
        [] \<Rightarrow> None
      | c # cs \<Rightarrow> if cls_mem i as c then run i k (step c cs s) else None)"
| "run i (Re (NCls as) # k) s =
     (case rest s of
        [] \<Rightarrow> None
      | c # cs \<Rightarrow> if \<not> cls_mem i as c then run i k (step c cs s) else None)"
| "run i (Re Dot # k) s =
     (case rest s of
        [] \<Rightarrow> None
      | c # cs \<Rightarrow> if \<not> isLineTerminator c then run i k (step c cs s) else None)"
| "run i (Re (Cat rs) # k) s = run i (map Re rs @ k) s"
| "run i (Re (Alt a b) # k) s =
     (case run i (Re a # k) s of
        Some e \<Rightarrow> Some e
      | None \<Rightarrow> run i (Re b # k) s)"
| "run i (Re (Star r) # k) s =
     (case run i (Re r # Again (Star r) (rest s) # k) s of
        Some e \<Rightarrow> Some e
      | None \<Rightarrow> run i k s)"
| "run i (Re (LazyStar r) # k) s =
     (case run i k s of
        Some e \<Rightarrow> Some e
      | None \<Rightarrow> run i (Re r # Again (LazyStar r) (rest s) # k) s)"
| "run i (Again r st # k) s =
     (if length (rest s) < length st then run i (Re r # k) s else None)"
| "run i (Re (Group n r) # k) s = run i (Re r # Close n (rest s) # k) s"
| "run i (Close n st # k) s = run i k (s\<lparr>caps := (caps s)(n \<mapsto> (st, rest s))\<rparr>)"
| "run i (Re (Backref n) # k) s =
     (case caps s n of
        None \<Rightarrow> run i k s
      | Some p \<Rightarrow> (case eat i (slice p) s of None \<Rightarrow> None | Some e \<Rightarrow> run i k e))"
| "run i (Re (Ahead r) # k) s =
     (case run i [Re r] s of
        None \<Rightarrow> None
      | Some e \<Rightarrow> run i k (s\<lparr>caps := caps e\<rparr>))"
| "run i (Re (NotAhead r) # k) s =
     (case run i [Re r] s of
        None \<Rightarrow> run i k s
      | Some e \<Rightarrow> None)"
| "run i (Re Bol # k) s = (if prev s = None then run i k s else None)"
| "run i (Re Eol # k) s = (if rest s = [] then run i k s else None)"
| "run i (Re WordB # k) s = (if wordAt (prev s) \<noteq> wordAt (peek s) then run i k s else None)"
  by pat_completeness auto
termination
proof (relation "inv_image (less_than <*lex*> less_than)
         (\<lambda>(i, k, s). (length (rest s), sum_list (map (weight (length (rest s))) k)))",
       goal_cases)
  case 1
  show ?case by auto
next
  case (2 i ps k s e)
  then show ?case using eat_length [of i ps s e]
    by (cases "length (rest e) < length (rest s)") auto
next
  case (6 i rs k s)
  have "sum_list (map (weight n \<circ> Re) rs) < 4 + 2 * size_list size rs" for n
    by (induction rs) auto
  then show ?case by (simp add: comp_def)
qed (auto simp: step_def dest: eat_length)

text \<open>\<open>r+\<close> and \<open>r+?\<close>.\<close>

definition Plus :: "regex \<Rightarrow> regex" where
  "Plus r = Cat [r, Star r]"

definition LazyPlus :: "regex \<Rightarrow> regex" where
  "LazyPlus r = Cat [r, LazyStar r]"

text \<open>\<open>\s\<close>, \<open>\d\<close>, \<open>[\s\S]\<close>, and a class or a negated class of listed characters.\<close>

definition Space :: regex where
  "Space = Cls [ASpace]"

definition Digit :: regex where
  "Digit = Cls [ADigit]"

definition AnyChar :: regex where
  "AnyChar = Cls [ASpace, ANonSpace]"

definition OneOf :: "string \<Rightarrow> regex" where
  "OneOf cs = Cls (map AChr cs)"

definition NoneOf :: "string \<Rightarrow> regex" where
  "NoneOf cs = NCls (map AChr cs)"

lemma eat_suffix: "eat i ps s = Some e \<Longrightarrow> \<exists>w. rest s = w @ rest e \<and> length w = length ps"
proof (induction ps arbitrary: s)
  case Nil
  then show ?case by simp
next
  case (Cons p ps)
  show ?case
  proof (cases "rest s")
    case Nil
    with Cons.prems show ?thesis by simp
  next
    case (Cons c cs)
    with Cons.prems have "eat i ps (step c cs s) = Some e"
      by (simp split: if_splits)
    from Cons.IH [OF this] obtain w where "rest (step c cs s) = w @ rest e" "length w = length ps"
      by blast
    then show ?thesis using Cons by (simp add: step_def)
  qed
qed

lemma run_length: "run i k s = Some e \<Longrightarrow> length (rest e) \<le> length (rest s)"
proof (induction i k s arbitrary: e rule: run.induct)
  case (2 i ps k s)
  then show ?case by (fastforce split: option.splits dest: eat_length)
next
  case (13 i n k s)
  then show ?case by (fastforce split: option.splits dest: eat_length)
qed (fastforce split: option.splits list.splits if_splits simp: step_def)+

subsection \<open>Repetitions whose body always consumes input\<close>

text \<open>
  The continuation of a match is only ever run on input that is no longer than the input the
  match started with; when what comes before it must consume a character, on shorter input.
\<close>

lemma run_cong_le:
  "k = a @ k1 \<Longrightarrow> (\<And>s'. length (rest s') \<le> length (rest s) \<Longrightarrow> run i k1 s' = run i k2 s')
     \<Longrightarrow> run i k s = run i (a @ k2) s"
proof (induction i k s arbitrary: a k1 rule: run.induct)
  case (1 i s)
  then show ?case by simp
next
  case (2 i ps k s)
  show ?case
  proof (cases a)
    case Nil
    with 2 show ?thesis by simp
  next
    case (Cons x a')
    with "2.prems" have x: "x = Re (Lit ps)" and k: "k = a' @ k1" by auto
    show ?thesis
    proof (cases "eat i ps s")
      case None
      then show ?thesis using Cons x by simp
    next
      case (Some e)
      have "run i k e = run i (a' @ k2) e"
        using "2.IH" [OF Some k] "2.prems"(2) eat_length [OF Some] by simp
      then show ?thesis using Cons x Some by simp
    qed
  qed
next
  case (3 i as k s)
  show ?case
  proof (cases a)
    case Nil
    with 3 show ?thesis by simp
  next
    case (Cons x a')
    with "3.prems" have x: "x = Re (Cls as)" and k: "k = a' @ k1" by auto
    show ?thesis
    proof (cases "rest s")
      case Nil
      then show ?thesis using Cons x by simp
    next
      case (Cons c cs)
      have "cls_mem i as c \<Longrightarrow> run i k (step c cs s) = run i (a' @ k2) (step c cs s)"
        using "3.IH" [OF Cons _ k] "3.prems"(2) Cons by (simp add: step_def)
      then show ?thesis using \<open>a = x # a'\<close> x Cons by simp
    qed
  qed
next
  case (4 i as k s)
  show ?case
  proof (cases a)
    case Nil
    with 4 show ?thesis by simp
  next
    case (Cons x a')
    with "4.prems" have x: "x = Re (NCls as)" and k: "k = a' @ k1" by auto
    show ?thesis
    proof (cases "rest s")
      case Nil
      then show ?thesis using Cons x by simp
    next
      case (Cons c cs)
      have "\<not> cls_mem i as c \<Longrightarrow> run i k (step c cs s) = run i (a' @ k2) (step c cs s)"
        using "4.IH" [OF Cons _ k] "4.prems"(2) Cons by (simp add: step_def)
      then show ?thesis using \<open>a = x # a'\<close> x Cons by simp
    qed
  qed
next
  case (5 i k s)
  show ?case
  proof (cases a)
    case Nil
    with 5 show ?thesis by simp
  next
    case (Cons x a')
    with "5.prems" have x: "x = Re Dot" and k: "k = a' @ k1" by auto
    show ?thesis
    proof (cases "rest s")
      case Nil
      then show ?thesis using Cons x by simp
    next
      case (Cons c cs)
      have "\<not> isLineTerminator c \<Longrightarrow> run i k (step c cs s) = run i (a' @ k2) (step c cs s)"
        using "5.IH" [OF Cons _ k] "5.prems"(2) Cons by (simp add: step_def)
      then show ?thesis using \<open>a = x # a'\<close> x Cons by simp
    qed
  qed
next
  case (6 i rs k s)
  show ?case
  proof (cases a)
    case Nil
    with 6 show ?thesis by simp
  next
    case (Cons x a')
    with "6.prems" have x: "x = Re (Cat rs)" and k: "k = a' @ k1" by auto
    have "run i (map Re rs @ k) s = run i ((map Re rs @ a') @ k2) s"
      using "6.IH" [of "map Re rs @ a'" k1] k "6.prems"(2) by simp
    then show ?thesis using Cons x by simp
  qed
next
  case (7 i r1 r2 k s)
  show ?case
  proof (cases a)
    case Nil
    with 7 show ?thesis by simp
  next
    case (Cons x a')
    with "7.prems" have x: "x = Re (Alt r1 r2)" and k: "k = a' @ k1" by auto
    have 1: "run i (Re r1 # k) s = run i ((Re r1 # a') @ k2) s"
      using "7.IH"(1) [of "Re r1 # a'" k1] k "7.prems"(2) by simp
    have 2: "run i (Re r1 # k) s = None \<Longrightarrow> run i (Re r2 # k) s = run i ((Re r2 # a') @ k2) s"
      using "7.IH"(2) [of "Re r2 # a'" k1] k "7.prems"(2) by simp
    show ?thesis using Cons x 1 2 by (simp split: option.splits)
  qed
next
  case (8 i r k s)
  show ?case
  proof (cases a)
    case Nil
    with 8 show ?thesis by simp
  next
    case (Cons x a')
    with "8.prems" have x: "x = Re (Star r)" and k: "k = a' @ k1" by auto
    have 1: "run i (Re r # Again (Star r) (rest s) # k) s
             = run i ((Re r # Again (Star r) (rest s) # a') @ k2) s"
      using "8.IH"(1) [of "Re r # Again (Star r) (rest s) # a'" k1] k "8.prems"(2) by simp
    have 2: "run i (Re r # Again (Star r) (rest s) # k) s = None \<Longrightarrow> run i k s = run i (a' @ k2) s"
      using "8.IH"(2) [of a' k1] k "8.prems"(2) by simp
    show ?thesis using Cons x 1 2 by (simp split: option.splits)
  qed
next
  case (9 i r k s)
  show ?case
  proof (cases a)
    case Nil
    with 9 show ?thesis by simp
  next
    case (Cons x a')
    with "9.prems" have x: "x = Re (LazyStar r)" and k: "k = a' @ k1" by auto
    have 1: "run i k s = run i (a' @ k2) s"
      using "9.IH"(1) [of a' k1] k "9.prems"(2) by simp
    have 2: "run i k s = None \<Longrightarrow> run i (Re r # Again (LazyStar r) (rest s) # k) s
             = run i ((Re r # Again (LazyStar r) (rest s) # a') @ k2) s"
      using "9.IH"(2) [of "Re r # Again (LazyStar r) (rest s) # a'" k1] k "9.prems"(2) by simp
    show ?thesis using Cons x 1 2 by (simp split: option.splits)
  qed
next
  case (10 i r st k s)
  show ?case
  proof (cases a)
    case Nil
    with 10 show ?thesis by simp
  next
    case (Cons x a')
    with "10.prems" have x: "x = Again r st" and k: "k = a' @ k1" by auto
    have "length (rest s) < length st \<Longrightarrow> run i (Re r # k) s = run i ((Re r # a') @ k2) s"
      using "10.IH" [of "Re r # a'" k1] k "10.prems"(2) by simp
    then show ?thesis using Cons x by simp
  qed
next
  case (11 i n r k s)
  show ?case
  proof (cases a)
    case Nil
    with 11 show ?thesis by simp
  next
    case (Cons x a')
    with "11.prems" have x: "x = Re (Group n r)" and k: "k = a' @ k1" by auto
    have "run i (Re r # Close n (rest s) # k) s = run i ((Re r # Close n (rest s) # a') @ k2) s"
      using "11.IH" [of "Re r # Close n (rest s) # a'" k1] k "11.prems"(2) by simp
    then show ?thesis using Cons x by simp
  qed
next
  case (12 i n st k s)
  show ?case
  proof (cases a)
    case Nil
    with 12 show ?thesis by simp
  next
    case (Cons x a')
    with "12.prems" have x: "x = Close n st" and k: "k = a' @ k1" by auto
    have "run i k (s\<lparr>caps := (caps s)(n \<mapsto> (st, rest s))\<rparr>)
          = run i (a' @ k2) (s\<lparr>caps := (caps s)(n \<mapsto> (st, rest s))\<rparr>)"
      using "12.IH" [of a' k1] k "12.prems"(2) by simp
    then show ?thesis using Cons x by simp
  qed
next
  case (13 i n k s)
  show ?case
  proof (cases a)
    case Nil
    with 13 show ?thesis by simp
  next
    case (Cons x a')
    with "13.prems" have x: "x = Re (Backref n)" and k: "k = a' @ k1" by auto
    show ?thesis
    proof (cases "caps s n")
      case None
      have "run i k s = run i (a' @ k2) s"
        using "13.IH"(1) [OF None k] "13.prems"(2) by simp
      then show ?thesis using Cons x None by simp
    next
      case (Some p)
      show ?thesis
      proof (cases "eat i (slice p) s")
        case None
        then show ?thesis using Cons x Some by simp
      next
        case e: (Some e)
        have "run i k e = run i (a' @ k2) e"
          using "13.IH"(2) [OF Some e k] "13.prems"(2) eat_length [OF e] by simp
        then show ?thesis using Cons x Some e by simp
      qed
    qed
  qed
next
  case (14 i r k s)
  show ?case
  proof (cases a)
    case Nil
    with 14 show ?thesis by simp
  next
    case (Cons x a')
    with "14.prems" have x: "x = Re (Ahead r)" and k: "k = a' @ k1" by auto
    have "run i [Re r] s = Some e \<Longrightarrow>
          run i k (s\<lparr>caps := caps e\<rparr>) = run i (a' @ k2) (s\<lparr>caps := caps e\<rparr>)" for e
      using "14.IH"(2) [of e a' k1] k "14.prems"(2) by simp
    then show ?thesis using Cons x by (simp split: option.splits)
  qed
next
  case (15 i r k s)
  show ?case
  proof (cases a)
    case Nil
    with 15 show ?thesis by simp
  next
    case (Cons x a')
    with "15.prems" have x: "x = Re (NotAhead r)" and k: "k = a' @ k1" by auto
    have "run i [Re r] s = None \<Longrightarrow> run i k s = run i (a' @ k2) s"
      using "15.IH"(2) [of a' k1] k "15.prems"(2) by simp
    then show ?thesis using Cons x by (simp split: option.splits)
  qed
next
  case (16 i k s)
  show ?case
  proof (cases a)
    case Nil
    with 16 show ?thesis by simp
  next
    case (Cons x a')
    with "16.prems" have x: "x = Re Bol" and k: "k = a' @ k1" by auto
    have "prev s = None \<Longrightarrow> run i k s = run i (a' @ k2) s"
      using "16.IH" [of a' k1] k "16.prems"(2) by simp
    then show ?thesis using Cons x by simp
  qed
next
  case (17 i k s)
  show ?case
  proof (cases a)
    case Nil
    with 17 show ?thesis by simp
  next
    case (Cons x a')
    with "17.prems" have x: "x = Re Eol" and k: "k = a' @ k1" by auto
    have "rest s = [] \<Longrightarrow> run i k s = run i (a' @ k2) s"
      using "17.IH" [of a' k1] k "17.prems"(2) by simp
    then show ?thesis using Cons x by simp
  qed
next
  case (18 i k s)
  show ?case
  proof (cases a)
    case Nil
    with 18 show ?thesis by simp
  next
    case (Cons x a')
    with "18.prems" have x: "x = Re WordB" and k: "k = a' @ k1" by auto
    have "wordAt (prev s) \<noteq> wordAt (peek s) \<Longrightarrow> run i k s = run i (a' @ k2) s"
      using "18.IH" [of a' k1] k "18.prems"(2) by simp
    then show ?thesis using Cons x by simp
  qed
qed

fun consuming :: "regex \<Rightarrow> bool" where
  "consuming (Lit ps) = (ps \<noteq> [])"
| "consuming (Cls as) = True"
| "consuming (NCls as) = True"
| "consuming Dot = True"
| "consuming (Cat rs) = list_ex consuming rs"
| "consuming (Alt a b) = (consuming a \<and> consuming b)"
| "consuming (Group n r) = consuming r"
| "consuming (Star r) = False"
| "consuming (LazyStar r) = False"
| "consuming (Backref n) = False"
| "consuming (Ahead r) = False"
| "consuming (NotAhead r) = False"
| "consuming Bol = False"
| "consuming Eol = False"
| "consuming WordB = False"

fun consumingItem :: "item \<Rightarrow> bool" where
  "consumingItem (Re r) = consuming r"
| "consumingItem (Again r st) = False"
| "consumingItem (Close n st) = False"

lemma consumingItem_map_Re: "list_ex consumingItem (map Re rs) = list_ex consuming rs"
  by (induction rs) auto

lemma eat_shorter: "eat i ps s = Some e \<Longrightarrow> ps \<noteq> [] \<Longrightarrow> length (rest e) < length (rest s)"
  using eat_suffix [of i ps s e] by auto

lemma run_cong_less:
  "k = a @ k1 \<Longrightarrow> list_ex consumingItem a
     \<Longrightarrow> (\<And>s'. length (rest s') < length (rest s) \<Longrightarrow> run i k1 s' = run i k2 s')
     \<Longrightarrow> run i k s = run i (a @ k2) s"
proof (induction i k s arbitrary: a k1 rule: run.induct)
  case (1 i s)
  then show ?case by simp
next
  case (2 i ps k s)
  from "2.prems" obtain a' where a: "a = Re (Lit ps) # a'" and k: "k = a' @ k1"
    by (cases a) auto
  show ?case
  proof (cases "eat i ps s")
    case None
    then show ?thesis using a by simp
  next
    case (Some e)
    have "run i k e = run i (a' @ k2) e"
    proof (cases "ps = []")
      case True
      with "2.prems"(2) a have "list_ex consumingItem a'" by simp
      from "2.IH" [OF Some k this] "2.prems"(3) eat_length [OF Some] show ?thesis by simp
    next
      case False
      from eat_shorter [OF Some False] "2.prems"(3)
      show ?thesis by (intro run_cong_le [OF k]) simp
    qed
    then show ?thesis using a Some by simp
  qed
next
  case (3 i as k s)
  from "3.prems" obtain a' where a: "a = Re (Cls as) # a'" and k: "k = a' @ k1"
    by (cases a) auto
  show ?case
  proof (cases "rest s")
    case Nil
    then show ?thesis using a by simp
  next
    case (Cons c cs)
    have "run i k (step c cs s) = run i (a' @ k2) (step c cs s)"
      using "3.prems"(3) Cons by (intro run_cong_le [OF k]) (simp add: step_def)
    then show ?thesis using a Cons by simp
  qed
next
  case (4 i as k s)
  from "4.prems" obtain a' where a: "a = Re (NCls as) # a'" and k: "k = a' @ k1"
    by (cases a) auto
  show ?case
  proof (cases "rest s")
    case Nil
    then show ?thesis using a by simp
  next
    case (Cons c cs)
    have "run i k (step c cs s) = run i (a' @ k2) (step c cs s)"
      using "4.prems"(3) Cons by (intro run_cong_le [OF k]) (simp add: step_def)
    then show ?thesis using a Cons by simp
  qed
next
  case (5 i k s)
  from "5.prems" obtain a' where a: "a = Re Dot # a'" and k: "k = a' @ k1"
    by (cases a) auto
  show ?case
  proof (cases "rest s")
    case Nil
    then show ?thesis using a by simp
  next
    case (Cons c cs)
    have "run i k (step c cs s) = run i (a' @ k2) (step c cs s)"
      using "5.prems"(3) Cons by (intro run_cong_le [OF k]) (simp add: step_def)
    then show ?thesis using a Cons by simp
  qed
next
  case (6 i rs k s)
  from "6.prems" obtain a' where a: "a = Re (Cat rs) # a'" and k: "k = a' @ k1"
    by (cases a) auto
  from "6.prems"(2) a have c: "list_ex consumingItem (map Re rs @ a')"
    by (auto simp: consumingItem_map_Re)
  have "run i (map Re rs @ k) s = run i ((map Re rs @ a') @ k2) s"
    using "6.IH" [of "map Re rs @ a'" k1, OF _ c] k "6.prems"(3) by simp
  then show ?case using a by simp
next
  case (7 i r1 r2 k s)
  from "7.prems" obtain a' where a: "a = Re (Alt r1 r2) # a'" and k: "k = a' @ k1"
    by (cases a) auto
  from "7.prems"(2) a have c1: "list_ex consumingItem (Re r1 # a')"
    and c2: "list_ex consumingItem (Re r2 # a')" by auto
  have 1: "run i (Re r1 # k) s = run i ((Re r1 # a') @ k2) s"
    using "7.IH"(1) [of "Re r1 # a'" k1, OF _ c1] k "7.prems"(3) by simp
  have 2: "run i (Re r1 # k) s = None \<Longrightarrow> run i (Re r2 # k) s = run i ((Re r2 # a') @ k2) s"
    using "7.IH"(2) [of "Re r2 # a'" k1, OF _ _ c2] k "7.prems"(3) by simp
  show ?case using a 1 2 by (simp split: option.splits)
next
  case (8 i r k s)
  from "8.prems" obtain a' where a: "a = Re (Star r) # a'" and k: "k = a' @ k1"
    by (cases a) auto
  from "8.prems"(2) a have c: "list_ex consumingItem a'" by simp
  then have c1: "list_ex consumingItem (Re r # Again (Star r) (rest s) # a')" by simp
  have 1: "run i (Re r # Again (Star r) (rest s) # k) s
           = run i ((Re r # Again (Star r) (rest s) # a') @ k2) s"
    using "8.IH"(1) [of "Re r # Again (Star r) (rest s) # a'" k1, OF _ c1] k "8.prems"(3) by simp
  have 2: "run i (Re r # Again (Star r) (rest s) # k) s = None \<Longrightarrow> run i k s = run i (a' @ k2) s"
    using "8.IH"(2) [of a' k1, OF _ _ c] k "8.prems"(3) by simp
  show ?case using a 1 2 by (simp split: option.splits)
next
  case (9 i r k s)
  from "9.prems" obtain a' where a: "a = Re (LazyStar r) # a'" and k: "k = a' @ k1"
    by (cases a) auto
  from "9.prems"(2) a have c: "list_ex consumingItem a'" by simp
  then have c1: "list_ex consumingItem (Re r # Again (LazyStar r) (rest s) # a')" by simp
  have 1: "run i k s = run i (a' @ k2) s"
    using "9.IH"(1) [of a' k1, OF _ c] k "9.prems"(3) by simp
  have 2: "run i k s = None \<Longrightarrow> run i (Re r # Again (LazyStar r) (rest s) # k) s
           = run i ((Re r # Again (LazyStar r) (rest s) # a') @ k2) s"
    using "9.IH"(2) [of "Re r # Again (LazyStar r) (rest s) # a'" k1, OF _ _ c1] k "9.prems"(3)
    by simp
  show ?case using a 1 2 by (simp split: option.splits)
next
  case (10 i r st k s)
  from "10.prems" obtain a' where a: "a = Again r st # a'" and k: "k = a' @ k1"
    by (cases a) auto
  from "10.prems"(2) a have c: "list_ex consumingItem (Re r # a')" by simp
  have "length (rest s) < length st \<Longrightarrow> run i (Re r # k) s = run i ((Re r # a') @ k2) s"
    using "10.IH" [of "Re r # a'" k1, OF _ _ c] k "10.prems"(3) by simp
  then show ?case using a by simp
next
  case (11 i n r k s)
  from "11.prems" obtain a' where a: "a = Re (Group n r) # a'" and k: "k = a' @ k1"
    by (cases a) auto
  from "11.prems"(2) a have c: "list_ex consumingItem (Re r # Close n (rest s) # a')" by simp
  have "run i (Re r # Close n (rest s) # k) s = run i ((Re r # Close n (rest s) # a') @ k2) s"
    using "11.IH" [of "Re r # Close n (rest s) # a'" k1, OF _ c] k "11.prems"(3) by simp
  then show ?case using a by simp
next
  case (12 i n st k s)
  from "12.prems" obtain a' where a: "a = Close n st # a'" and k: "k = a' @ k1"
    by (cases a) auto
  from "12.prems"(2) a have c: "list_ex consumingItem a'" by simp
  have "run i k (s\<lparr>caps := (caps s)(n \<mapsto> (st, rest s))\<rparr>)
        = run i (a' @ k2) (s\<lparr>caps := (caps s)(n \<mapsto> (st, rest s))\<rparr>)"
    using "12.IH" [of a' k1, OF k c] "12.prems"(3) by simp
  then show ?case using a by simp
next
  case (13 i n k s)
  from "13.prems" obtain a' where a: "a = Re (Backref n) # a'" and k: "k = a' @ k1"
    by (cases a) auto
  from "13.prems"(2) a have c: "list_ex consumingItem a'" by simp
  show ?case
  proof (cases "caps s n")
    case None
    have "run i k s = run i (a' @ k2) s"
      using "13.IH"(1) [OF None k c] "13.prems"(3) by simp
    then show ?thesis using a None by simp
  next
    case (Some p)
    show ?thesis
    proof (cases "eat i (slice p) s")
      case None
      then show ?thesis using a Some by simp
    next
      case e: (Some e)
      have "run i k e = run i (a' @ k2) e"
        using "13.IH"(2) [OF Some e k c] "13.prems"(3) eat_length [OF e] by simp
      then show ?thesis using a Some e by simp
    qed
  qed
next
  case (14 i r k s)
  from "14.prems" obtain a' where a: "a = Re (Ahead r) # a'" and k: "k = a' @ k1"
    by (cases a) auto
  from "14.prems"(2) a have c: "list_ex consumingItem a'" by simp
  have "run i [Re r] s = Some e \<Longrightarrow>
        run i k (s\<lparr>caps := caps e\<rparr>) = run i (a' @ k2) (s\<lparr>caps := caps e\<rparr>)" for e
    using "14.IH"(2) [of e a' k1, OF _ k c] "14.prems"(3) by simp
  then show ?case using a by (simp split: option.splits)
next
  case (15 i r k s)
  from "15.prems" obtain a' where a: "a = Re (NotAhead r) # a'" and k: "k = a' @ k1"
    by (cases a) auto
  from "15.prems"(2) a have c: "list_ex consumingItem a'" by simp
  have "run i [Re r] s = None \<Longrightarrow> run i k s = run i (a' @ k2) s"
    using "15.IH"(2) [of a' k1, OF _ k c] "15.prems"(3) by simp
  then show ?case using a by (simp split: option.splits)
next
  case (16 i k s)
  from "16.prems" obtain a' where a: "a = Re Bol # a'" and k: "k = a' @ k1"
    by (cases a) auto
  from "16.prems"(2) a have c: "list_ex consumingItem a'" by simp
  have "prev s = None \<Longrightarrow> run i k s = run i (a' @ k2) s"
    using "16.IH" [of a' k1, OF _ k c] "16.prems"(3) by simp
  then show ?case using a by simp
next
  case (17 i k s)
  from "17.prems" obtain a' where a: "a = Re Eol # a'" and k: "k = a' @ k1"
    by (cases a) auto
  from "17.prems"(2) a have c: "list_ex consumingItem a'" by simp
  have "rest s = [] \<Longrightarrow> run i k s = run i (a' @ k2) s"
    using "17.IH" [of a' k1, OF _ k c] "17.prems"(3) by simp
  then show ?case using a by simp
next
  case (18 i k s)
  from "18.prems" obtain a' where a: "a = Re WordB # a'" and k: "k = a' @ k1"
    by (cases a) auto
  from "18.prems"(2) a have c: "list_ex consumingItem a'" by simp
  have "wordAt (prev s) \<noteq> wordAt (peek s) \<Longrightarrow> run i k s = run i (a' @ k2) s"
    using "18.IH" [of a' k1, OF _ k c] "18.prems"(3) by simp
  then show ?case using a by simp
qed

lemma run_Star_consuming:
  assumes "consuming r"
  shows "run i (Re (Star r) # k) s =
           (case run i (Re r # Re (Star r) # k) s of
              Some e \<Rightarrow> Some e
            | None \<Rightarrow> run i k s)"
proof -
  have "run i (Re r # Again (Star r) (rest s) # k) s = run i ([Re r] @ Re (Star r) # k) s"
    by (rule run_cong_less [of _ "[Re r]" "Again (Star r) (rest s) # k"]) (use assms in auto)
  then show ?thesis by simp
qed

lemma run_LazyStar_consuming:
  assumes "consuming r"
  shows "run i (Re (LazyStar r) # k) s =
           (case run i k s of
              Some e \<Rightarrow> Some e
            | None \<Rightarrow> run i (Re r # Re (LazyStar r) # k) s)"
proof -
  have "run i (Re r # Again (LazyStar r) (rest s) # k) s = run i ([Re r] @ Re (LazyStar r) # k) s"
    by (rule run_cong_less [of _ "[Re r]" "Again (LazyStar r) (rest s) # k"]) (use assms in auto)
  then show ?thesis by (simp split: option.splits)
qed

text \<open>
  The equations by which the matcher is evaluated: the check at the end of an iteration is
  left out where the body always consumes a character.
\<close>

lemma run_Star_code:
  "run i (Re (Star r) # k) s =
     (if consuming r
      then (case run i (Re r # Re (Star r) # k) s of
              Some e \<Rightarrow> Some e
            | None \<Rightarrow> run i k s)
      else (case run i (Re r # Again (Star r) (rest s) # k) s of
              Some e \<Rightarrow> Some e
            | None \<Rightarrow> run i k s))"
  using run_Star_consuming [of r i k s] by simp

lemma run_LazyStar_code:
  "run i (Re (LazyStar r) # k) s =
     (case run i k s of
        Some e \<Rightarrow> Some e
      | None \<Rightarrow>
          if consuming r then run i (Re r # Re (LazyStar r) # k) s
          else run i (Re r # Again (LazyStar r) (rest s) # k) s)"
  using run_LazyStar_consuming [of r i k s] by (simp split: option.splits)

lemmas run_code [code] =
  run.simps(1-7) run_Star_code run_LazyStar_code run.simps(10-18)

declare run.simps(8,9) [simp del]

subsection \<open>What a match consumes\<close>

text \<open>The state after the text \<open>w\<close> has been consumed and \<open>v\<close> is left.\<close>

definition moved :: "string \<Rightarrow> string \<Rightarrow> mstate \<Rightarrow> mstate" where
  "moved w v s = s\<lparr>prev := (if w = [] then prev s else Some (last w)), rest := v\<rparr>"

lemma moved_Nil [simp]: "moved [] (rest s) s = s"
  by (simp add: moved_def)

lemma moved_Nil_eq: "rest s = v \<Longrightarrow> moved [] v s = s"
  by (auto simp: moved_def)

lemma moved_moved [simp]: "moved w2 v (moved w1 v' s) = moved (w1 @ w2) v s"
  by (simp add: moved_def)

lemma step_moved: "step c cs s = moved [c] cs s"
  by (simp add: step_def moved_def)

lemma rest_moved [simp]: "rest (moved w v s) = v"
  by (simp add: moved_def)

lemma caps_moved [simp]: "caps (moved w v s) = caps s"
  by (simp add: moved_def)

lemma prev_moved: "prev (moved w v s) = (if w = [] then prev s else Some (last w))"
  by (simp add: moved_def)

lemma moved_caps_update:
  "moved w v (s\<lparr>caps := f\<rparr>) = (moved w v s)\<lparr>caps := f\<rparr>"
  by (simp add: moved_def)

text \<open>A literal \<open>ps\<close> matches the text \<open>w\<close>.\<close>

definition lit_match :: "bool \<Rightarrow> string \<Rightarrow> string \<Rightarrow> bool" where
  "lit_match i ps w = list_all2 (\<lambda>c p. if i then canon c = canon p else c = p) w ps"

lemma lit_match_Nil [simp]: "lit_match i [] w = (w = [])"
  by (simp add: lit_match_def)

lemma lit_match_Cons:
  "lit_match i (p # ps) w =
     (\<exists>c w'. w = c # w' \<and> (if i then canon c = canon p else c = p) \<and> lit_match i ps w')"
  by (cases w) (auto simp: lit_match_def)

lemma lit_match_length: "lit_match i ps w \<Longrightarrow> length w = length ps"
  by (simp add: lit_match_def list_all2_lengthD)

lemma eat_iff:
  "eat i ps s = Some e \<longleftrightarrow> (\<exists>w v. rest s = w @ v \<and> lit_match i ps w \<and> e = moved w v s)"
proof (induction ps arbitrary: s)
  case Nil
  show ?case by (auto simp: moved_def)
next
  case (Cons p ps)
  show ?case
  proof (cases "rest s")
    case Nil
    then show ?thesis by (simp add: lit_match_Cons)
  next
    case c: (Cons c cs)
    show ?thesis
    proof (cases "if i then canon c = canon p else c = p")
      case False
      then show ?thesis using c by (auto simp: lit_match_Cons)
    next
      case True
      have "eat i (p # ps) s = Some e \<longleftrightarrow> eat i ps (step c cs s) = Some e"
        using c True by simp
      also have "\<dots> \<longleftrightarrow> (\<exists>w v. cs = w @ v \<and> lit_match i ps w \<and> e = moved w v (step c cs s))"
        using Cons.IH [of "step c cs s"] by (simp add: step_def)
      also have "\<dots> \<longleftrightarrow> (\<exists>w v. rest s = w @ v \<and> lit_match i (p # ps) w \<and> e = moved w v s)"
      proof
        assume "\<exists>w v. cs = w @ v \<and> lit_match i ps w \<and> e = moved w v (step c cs s)"
        then obtain w v where "cs = w @ v" "lit_match i ps w" "e = moved w v (step c cs s)"
          by blast
        then have "rest s = (c # w) @ v \<and> lit_match i (p # ps) (c # w) \<and> e = moved (c # w) v s"
          using c True by (simp add: lit_match_Cons step_moved)
        then show "\<exists>w v. rest s = w @ v \<and> lit_match i (p # ps) w \<and> e = moved w v s"
          by blast
      next
        assume "\<exists>w v. rest s = w @ v \<and> lit_match i (p # ps) w \<and> e = moved w v s"
        then obtain w v where w: "rest s = w @ v" "lit_match i (p # ps) w" "e = moved w v s"
          by blast
        then obtain w' where w': "w = c # w'" "lit_match i ps w'"
          using c by (auto simp: lit_match_Cons)
        then have "cs = w' @ v \<and> lit_match i ps w' \<and> e = moved w' v (step c cs s)"
          using w c by (simp add: step_moved)
        then show "\<exists>w v. cs = w @ v \<and> lit_match i ps w \<and> e = moved w v (step c cs s)"
          by blast
      qed
      finally show ?thesis .
    qed
  qed
qed

lemma eat_None_iff:
  "eat i ps s = None \<longleftrightarrow> (\<forall>w v. rest s = w @ v \<longrightarrow> \<not> lit_match i ps w)"
proof -
  have "eat i ps s = None \<longleftrightarrow> (\<forall>e. eat i ps s \<noteq> Some e)" by auto
  also have "\<dots> \<longleftrightarrow> (\<forall>w v. rest s = w @ v \<longrightarrow> \<not> lit_match i ps w)"
    by (simp add: eat_iff) blast
  finally show ?thesis .
qed

text \<open>A pattern for one character, and the characters it takes.\<close>

fun charOf :: "bool \<Rightarrow> regex \<Rightarrow> (char \<Rightarrow> bool) option" where
  "charOf i (Cls as) = Some (cls_mem i as)"
| "charOf i (NCls as) = Some (\<lambda>c. \<not> cls_mem i as c)"
| "charOf i Dot = Some (\<lambda>c. \<not> isLineTerminator c)"
| "charOf i r = None"

lemma charOf_consuming: "charOf i r = Some P \<Longrightarrow> consuming r"
  by (cases r) auto

lemma run_charOf:
  "charOf i r = Some P \<Longrightarrow>
     run i (Re r # k) s =
       (case rest s of [] \<Rightarrow> None | c # cs \<Rightarrow> if P c then run i k (moved [c] cs s) else None)"
  by (cases r) (auto simp: step_moved split: list.splits)

lemma run_Star_char:
  assumes "charOf i r = Some P"
  shows "run i (Re (Star r) # k) s =
           (case rest s of
              [] \<Rightarrow> run i k s
            | c # cs \<Rightarrow>
                if P c
                then (case run i (Re (Star r) # k) (moved [c] cs s) of
                        Some e \<Rightarrow> Some e
                      | None \<Rightarrow> run i k s)
                else run i k s)"
  by (simp add: run_Star_consuming [OF charOf_consuming [OF assms], of i k s] run_charOf [OF assms]
      split: list.splits)

lemma run_LazyStar_char:
  assumes "charOf i r = Some P"
  shows "run i (Re (LazyStar r) # k) s =
           (case run i k s of
              Some e \<Rightarrow> Some e
            | None \<Rightarrow>
                (case rest s of
                   [] \<Rightarrow> None
                 | c # cs \<Rightarrow> if P c then run i (Re (LazyStar r) # k) (moved [c] cs s) else None))"
  by (simp add: run_LazyStar_consuming [OF charOf_consuming [OF assms], of i k s] run_charOf [OF assms]
      split: list.splits option.splits)

lemma ex_splitI: "xs = w @ v \<Longrightarrow> Q w v \<Longrightarrow> \<exists>w v. xs = w @ v \<and> Q w v"
  by blast

text \<open>A repetition of a one character pattern: what a success means.\<close>

lemma run_Star_char_Some:
  assumes "charOf i r = Some P"
  shows "rest s = xs \<Longrightarrow> run i (Re (Star r) # k) s = Some e \<Longrightarrow>
           \<exists>w v. xs = w @ v \<and> (\<forall>c \<in> set w. P c) \<and> run i k (moved w v s) = Some e"
proof (induction xs arbitrary: s)
  case Nil
  then have "run i k s = Some e" by (simp add: run_Star_char [OF assms, of k s])
  then show ?case
    using Nil by (intro ex_splitI [of _ "[]" "[]"]) (simp_all add: moved_Nil_eq)
next
  case (Cons c cs)
  show ?case
  proof (cases "P c \<and> run i (Re (Star r) # k) (moved [c] cs s) \<noteq> None")
    case True
    then obtain e' where e': "run i (Re (Star r) # k) (moved [c] cs s) = Some e'" by auto
    with Cons.prems True have "e' = e"
      by (simp add: run_Star_char [OF assms, of k s])
    with Cons.IH [of "moved [c] cs s"] e'
    obtain w v where "cs = w @ v" "\<forall>c \<in> set w. P c" "run i k (moved w v (moved [c] cs s)) = Some e"
      by auto
    then show ?thesis
      using True by (intro ex_splitI [of _ "c # w" v]) simp_all
  next
    case False
    with Cons.prems have "run i k s = Some e"
      by (auto simp: run_Star_char [OF assms, of k s] split: if_splits option.splits)
    then show ?thesis
      using Cons.prems by (intro ex_splitI [of _ "[]" "c # cs"]) (simp_all add: moved_Nil_eq)
  qed
qed

lemma run_LazyStar_char_Some:
  assumes "charOf i r = Some P"
  shows "rest s = xs \<Longrightarrow> run i (Re (LazyStar r) # k) s = Some e \<Longrightarrow>
           \<exists>w v. xs = w @ v \<and> (\<forall>c \<in> set w. P c) \<and> run i k (moved w v s) = Some e"
proof (induction xs arbitrary: s)
  case Nil
  then have "run i k s = Some e"
    by (simp add: run_LazyStar_char [OF assms, of k s] split: option.splits)
  then show ?case
    using Nil by (intro ex_splitI [of _ "[]" "[]"]) (simp_all add: moved_Nil_eq)
next
  case (Cons c cs)
  show ?case
  proof (cases "run i k s")
    case (Some e')
    with Cons.prems have "run i k s = Some e"
      by (simp add: run_LazyStar_char [OF assms, of k s])
    then show ?thesis
      using Cons.prems by (intro ex_splitI [of _ "[]" "c # cs"]) (simp_all add: moved_Nil_eq)
  next
    case None
    with Cons.prems have p: "P c" and e: "run i (Re (LazyStar r) # k) (moved [c] cs s) = Some e"
      by (auto simp: run_LazyStar_char [OF assms, of k s] split: if_splits)
    with Cons.IH [of "moved [c] cs s"]
    obtain w v where "cs = w @ v" "\<forall>c \<in> set w. P c" "run i k (moved w v (moved [c] cs s)) = Some e"
      by auto
    then show ?thesis
      using p by (intro ex_splitI [of _ "c # w" v]) simp_all
  qed
qed

text \<open>A repetition of a one character pattern fails when the continuation fails everywhere.\<close>

lemma run_Star_char_None:
  assumes "charOf i r = Some P"
  shows "rest s = xs \<Longrightarrow>
           (\<And>w v. xs = w @ v \<Longrightarrow> \<forall>c \<in> set w. P c \<Longrightarrow> run i k (moved w v s) = None) \<Longrightarrow>
           run i (Re (Star r) # k) s = None"
proof (induction xs arbitrary: s)
  case Nil
  from Nil(2) [of "[]" "[]"] Nil(1) show ?case
    by (simp add: run_Star_char [OF assms, of k s] moved_Nil_eq)
next
  case (Cons c cs)
  have 0: "run i k s = None"
    using Cons.prems(2) [of "[]" "c # cs"] Cons.prems(1) by (simp add: moved_Nil_eq)
  have "run i (Re (Star r) # k) (moved [c] cs s) = None" if "P c"
  proof (rule Cons.IH)
    show "rest (moved [c] cs s) = cs" by simp
  next
    fix w v
    assume "cs = w @ v" "\<forall>c \<in> set w. P c"
    with Cons.prems(2) [of "c # w" v] that
    show "run i k (moved w v (moved [c] cs s)) = None" by simp
  qed
  with 0 show ?case using Cons.prems(1) by (simp add: run_Star_char [OF assms, of k s])
qed

lemma run_LazyStar_char_None:
  assumes "charOf i r = Some P"
  shows "rest s = xs \<Longrightarrow>
           (\<And>w v. xs = w @ v \<Longrightarrow> \<forall>c \<in> set w. P c \<Longrightarrow> run i k (moved w v s) = None) \<Longrightarrow>
           run i (Re (LazyStar r) # k) s = None"
proof (induction xs arbitrary: s)
  case Nil
  from Nil(2) [of "[]" "[]"] Nil(1) show ?case
    by (simp add: run_LazyStar_char [OF assms, of k s] moved_Nil_eq)
next
  case (Cons c cs)
  have 0: "run i k s = None"
    using Cons.prems(2) [of "[]" "c # cs"] Cons.prems(1) by (simp add: moved_Nil_eq)
  have "run i (Re (LazyStar r) # k) (moved [c] cs s) = None" if "P c"
  proof (rule Cons.IH)
    show "rest (moved [c] cs s) = cs" by simp
  next
    fix w v
    assume "cs = w @ v" "\<forall>c \<in> set w. P c"
    with Cons.prems(2) [of "c # w" v] that
    show "run i k (moved w v (moved [c] cs s)) = None" by simp
  qed
  with 0 show ?case using Cons.prems(1) by (simp add: run_LazyStar_char [OF assms, of k s])
qed

text \<open>
  A lazy repetition stops at the first place where the continuation succeeds; a greedy one
  at the last.
\<close>

lemma run_LazyStar_char_first:
  assumes "charOf i r = Some P"
  shows "rest s = w @ v \<Longrightarrow> \<forall>c \<in> set w. P c \<Longrightarrow> run i k (moved w v s) = Some e \<Longrightarrow>
           (\<And>w1 w2. w = w1 @ w2 \<Longrightarrow> w2 \<noteq> [] \<Longrightarrow> run i k (moved w1 (w2 @ v) s) = None) \<Longrightarrow>
           run i (Re (LazyStar r) # k) s = Some e"
proof (induction w arbitrary: s)
  case Nil
  then show ?case by (simp add: run_LazyStar_char [OF assms, of k s] moved_Nil_eq)
next
  case (Cons c w)
  have 0: "run i k s = None"
    using Cons.prems(4) [of "[]" "c # w"] Cons.prems(1) by (simp add: moved_Nil_eq)
  have "run i (Re (LazyStar r) # k) (moved [c] (w @ v) s) = Some e"
  proof (rule Cons.IH)
    show "rest (moved [c] (w @ v) s) = w @ v" by simp
    show "\<forall>c \<in> set w. P c" using Cons.prems(2) by simp
    show "run i k (moved w v (moved [c] (w @ v) s)) = Some e" using Cons.prems(3) by simp
  next
    fix w1 w2
    assume "w = w1 @ w2" "w2 \<noteq> []"
    with Cons.prems(4) [of "c # w1" w2]
    show "run i k (moved w1 (w2 @ v) (moved [c] (w @ v) s)) = None" by simp
  qed
  with 0 show ?case using Cons.prems(1,2) by (simp add: run_LazyStar_char [OF assms, of k s])
qed

lemma run_Star_char_last:
  assumes "charOf i r = Some P"
  shows "rest s = w @ v \<Longrightarrow> \<forall>c \<in> set w. P c \<Longrightarrow> run i k (moved w v s) = Some e \<Longrightarrow>
           (\<And>w1 v1. v = w1 @ v1 \<Longrightarrow> w1 \<noteq> [] \<Longrightarrow> \<forall>c \<in> set w1. P c \<Longrightarrow>
                run i k (moved (w @ w1) v1 s) = None) \<Longrightarrow>
           run i (Re (Star r) # k) s = Some e"
proof (induction w arbitrary: s)
  case Nil
  show ?case
  proof (cases v)
    case Nil
    with Nil.prems show ?thesis by (simp add: run_Star_char [OF assms, of k s] moved_Nil_eq)
  next
    case (Cons c cs)
    have "run i (Re (Star r) # k) (moved [c] cs s) = None" if "P c"
    proof (rule run_Star_char_None [OF assms])
      show "rest (moved [c] cs s) = cs" by simp
    next
      fix w' v'
      assume "cs = w' @ v'" "\<forall>c \<in> set w'. P c"
      with Nil.prems(4) [of "c # w'" v'] Cons that
      show "run i k (moved w' v' (moved [c] cs s)) = None" by simp
    qed
    with Nil.prems Cons show ?thesis by (simp add: run_Star_char [OF assms, of k s] moved_Nil_eq)
  qed
next
  case (Cons c w)
  have "run i (Re (Star r) # k) (moved [c] (w @ v) s) = Some e"
  proof (rule Cons.IH)
    show "rest (moved [c] (w @ v) s) = w @ v" by simp
    show "\<forall>c \<in> set w. P c" using Cons.prems(2) by simp
    show "run i k (moved w v (moved [c] (w @ v) s)) = Some e" using Cons.prems(3) by simp
  next
    fix w1 v1
    assume "v = w1 @ v1" "w1 \<noteq> []" "\<forall>c \<in> set w1. P c"
    with Cons.prems(4) [of w1 v1]
    show "run i k (moved (w @ w1) v1 (moved [c] (w @ v) s)) = None" by simp
  qed
  then show ?case using Cons.prems(1,2) by (simp add: run_Star_char [OF assms, of k s])
qed

subsection \<open>Where the continuation is run\<close>

text \<open>
  When a match of \<open>a\<close> followed by \<open>k\<close> succeeds, the result is the result of \<open>k\<close> run at a
  later position of the input, a strictly later one when \<open>a\<close> must consume a character.
\<close>

definition reaches :: "bool \<Rightarrow> item list \<Rightarrow> item list \<Rightarrow> mstate \<Rightarrow> mstate \<Rightarrow> bool" where
  "reaches i a k s e =
     (\<exists>s' w. run i k s' = Some e \<and> rest s = w @ rest s' \<and> (list_ex consumingItem a \<longrightarrow> w \<noteq> []))"

lemma reaches_Nil: "run i k s = Some e \<Longrightarrow> reaches i [] k s e"
  unfolding reaches_def by (intro exI [of _ s] exI [of _ "[]"]) simp

lemma reaches_mono:
  "reaches i a1 k s e \<Longrightarrow> (list_ex consumingItem a2 \<Longrightarrow> list_ex consumingItem a1)
     \<Longrightarrow> reaches i a2 k s e"
  unfolding reaches_def by metis

lemma reaches_step:
  assumes "reaches i a k s1 e" and "rest s = w1 @ rest s1" and "consumingItem x \<Longrightarrow> w1 \<noteq> []"
  shows "reaches i (x # a) k s e"
proof -
  from assms(1) obtain s' w where r: "run i k s' = Some e" and w: "rest s1 = w @ rest s'"
    and c: "list_ex consumingItem a \<longrightarrow> w \<noteq> []"
    unfolding reaches_def by blast
  have "rest s = (w1 @ w) @ rest s'" using assms(2) w by simp
  moreover have "list_ex consumingItem (x # a) \<longrightarrow> w1 @ w \<noteq> []"
    using c assms(3) by auto
  ultimately show ?thesis
    unfolding reaches_def using r by (intro exI [of _ s'] exI [of _ "w1 @ w"]) simp
qed

lemma reaches_same:
  "reaches i a k s1 e \<Longrightarrow> rest s = rest s1 \<Longrightarrow> \<not> consumingItem x \<Longrightarrow> reaches i (x # a) k s e"
  by (rule reaches_step [where ?w1.0 = "[]"]) simp_all

lemma run_append_reaches:
  "k0 = a @ k \<Longrightarrow> run i k0 s = Some e \<Longrightarrow> reaches i a k s e"
proof (induction i k0 s arbitrary: a rule: run.induct)
  case (1 i s)
  then show ?case by (simp add: reaches_Nil)
next
  case (2 i ps k' s)
  show ?case
  proof (cases a)
    case Nil
    with 2 show ?thesis by (simp add: reaches_Nil)
  next
    case (Cons x a')
    with "2.prems" have x: "x = Re (Lit ps)" and k: "k' = a' @ k" by auto
    from "2.prems"(2) obtain s1 where s1: "eat i ps s = Some s1" and r: "run i k' s1 = Some e"
      by (auto split: option.splits)
    from eat_suffix [OF s1] obtain w where w: "rest s = w @ rest s1" "length w = length ps" by blast
    show ?thesis
      unfolding Cons x
      by (rule reaches_step [OF "2.IH" [OF s1 k r] w(1)]) (use w(2) in auto)
  qed
next
  case (3 i as k' s)
  show ?case
  proof (cases a)
    case Nil
    with 3 show ?thesis by (simp add: reaches_Nil)
  next
    case (Cons x a')
    with "3.prems" have x: "x = Re (Cls as)" and k: "k' = a' @ k" by auto
    from "3.prems"(2) obtain c cs where c: "rest s = c # cs" "cls_mem i as c"
      and r: "run i k' (step c cs s) = Some e"
      by (auto split: list.splits if_splits)
    show ?thesis
      unfolding Cons x
      by (rule reaches_step [OF "3.IH" [OF c k r], of _ "[c]"]) (use c in \<open>auto simp: step_def\<close>)
  qed
next
  case (4 i as k' s)
  show ?case
  proof (cases a)
    case Nil
    with 4 show ?thesis by (simp add: reaches_Nil)
  next
    case (Cons x a')
    with "4.prems" have x: "x = Re (NCls as)" and k: "k' = a' @ k" by auto
    from "4.prems"(2) obtain c cs where c: "rest s = c # cs" "\<not> cls_mem i as c"
      and r: "run i k' (step c cs s) = Some e"
      by (auto split: list.splits if_splits)
    show ?thesis
      unfolding Cons x
      by (rule reaches_step [OF "4.IH" [OF c k r], of _ "[c]"]) (use c in \<open>auto simp: step_def\<close>)
  qed
next
  case (5 i k' s)
  show ?case
  proof (cases a)
    case Nil
    with 5 show ?thesis by (simp add: reaches_Nil)
  next
    case (Cons x a')
    with "5.prems" have x: "x = Re Dot" and k: "k' = a' @ k" by auto
    from "5.prems"(2) obtain c cs where c: "rest s = c # cs" "\<not> isLineTerminator c"
      and r: "run i k' (step c cs s) = Some e"
      by (auto split: list.splits if_splits)
    show ?thesis
      unfolding Cons x
      by (rule reaches_step [OF "5.IH" [OF c k r], of _ "[c]"]) (use c in \<open>auto simp: step_def\<close>)
  qed
next
  case (6 i rs k' s)
  show ?case
  proof (cases a)
    case Nil
    with 6 show ?thesis by (simp add: reaches_Nil)
  next
    case (Cons x a')
    with "6.prems" have x: "x = Re (Cat rs)" and k: "k' = a' @ k" by auto
    have "reaches i (map Re rs @ a') k s e"
      using "6.IH" [of "map Re rs @ a'"] k "6.prems"(2) by simp
    then show ?thesis
      unfolding Cons x by (rule reaches_mono) (auto simp: consumingItem_map_Re)
  qed
next
  case (7 i r1 r2 k' s)
  show ?case
  proof (cases a)
    case Nil
    with 7 show ?thesis by (simp add: reaches_Nil)
  next
    case (Cons x a')
    with "7.prems" have x: "x = Re (Alt r1 r2)" and k: "k' = a' @ k" by auto
    show ?thesis
    proof (cases "run i (Re r1 # k') s")
      case None
      with "7.prems"(2) have "run i (Re r2 # k') s = Some e" by simp
      with "7.IH"(2) [OF None, of "Re r2 # a'"] k have "reaches i (Re r2 # a') k s e" by simp
      then show ?thesis unfolding Cons x by (rule reaches_mono) auto
    next
      case (Some e')
      with "7.prems"(2) have "run i (Re r1 # k') s = Some e" by simp
      with "7.IH"(1) [of "Re r1 # a'"] k have "reaches i (Re r1 # a') k s e" by simp
      then show ?thesis unfolding Cons x by (rule reaches_mono) auto
    qed
  qed
next
  case (8 i r k' s)
  show ?case
  proof (cases a)
    case Nil
    with 8 show ?thesis by (simp add: reaches_Nil)
  next
    case (Cons x a')
    with "8.prems" have x: "x = Re (Star r)" and k: "k' = a' @ k" by auto
    show ?thesis
    proof (cases "run i (Re r # Again (Star r) (rest s) # k') s")
      case None
      with "8.prems"(2) have "run i k' s = Some e" by (simp add: run.simps(8))
      with "8.IH"(2) [OF None k] have "reaches i a' k s e" by simp
      then show ?thesis unfolding Cons x by (rule reaches_same) simp_all
    next
      case (Some e')
      with "8.prems"(2) have "run i (Re r # Again (Star r) (rest s) # k') s = Some e"
        by (simp add: run.simps(8))
      with "8.IH"(1) [of "Re r # Again (Star r) (rest s) # a'"] k
      have "reaches i (Re r # Again (Star r) (rest s) # a') k s e" by simp
      then show ?thesis
        unfolding Cons x reaches_def using Some by (auto simp: run.simps(10))
    qed
  qed
next
  case (9 i r k' s)
  show ?case
  proof (cases a)
    case Nil
    with 9 show ?thesis by (simp add: reaches_Nil)
  next
    case (Cons x a')
    with "9.prems" have x: "x = Re (LazyStar r)" and k: "k' = a' @ k" by auto
    show ?thesis
    proof (cases "run i k' s")
      case None
      with "9.prems"(2) have "run i (Re r # Again (LazyStar r) (rest s) # k') s = Some e"
        by (simp add: run.simps(9))
      with "9.IH"(2) [OF None, of "Re r # Again (LazyStar r) (rest s) # a'"] k
      have "reaches i (Re r # Again (LazyStar r) (rest s) # a') k s e" by simp
      then show ?thesis
        unfolding Cons x reaches_def by auto
    next
      case (Some e')
      with "9.prems"(2) have "run i k' s = Some e" by (simp add: run.simps(9))
      with "9.IH"(1) [OF k] have "reaches i a' k s e" by simp
      then show ?thesis unfolding Cons x by (rule reaches_same) simp_all
    qed
  qed
next
  case (10 i r st k' s)
  show ?case
  proof (cases a)
    case Nil
    with 10 show ?thesis by (simp add: reaches_Nil)
  next
    case (Cons x a')
    with "10.prems" have x: "x = Again r st" and k: "k' = a' @ k" by auto
    from "10.prems"(2) have l: "length (rest s) < length st" and r: "run i (Re r # k') s = Some e"
      by (auto split: if_splits)
    from "10.IH" [OF l, of "Re r # a'"] k r have "reaches i (Re r # a') k s e" by simp
    then show ?thesis unfolding Cons x reaches_def by auto
  qed
next
  case (11 i n r k' s)
  show ?case
  proof (cases a)
    case Nil
    with 11 show ?thesis by (simp add: reaches_Nil)
  next
    case (Cons x a')
    with "11.prems" have x: "x = Re (Group n r)" and k: "k' = a' @ k" by auto
    from "11.IH" [of "Re r # Close n (rest s) # a'"] k "11.prems"(2)
    have "reaches i (Re r # Close n (rest s) # a') k s e" by simp
    then show ?thesis unfolding Cons x by (rule reaches_mono) auto
  qed
next
  case (12 i n st k' s)
  show ?case
  proof (cases a)
    case Nil
    with 12 show ?thesis by (simp add: reaches_Nil)
  next
    case (Cons x a')
    with "12.prems" have x: "x = Close n st" and k: "k' = a' @ k" by auto
    from "12.IH" [OF k] "12.prems"(2)
    have "reaches i a' k (s\<lparr>caps := (caps s)(n \<mapsto> (st, rest s))\<rparr>) e" by simp
    then show ?thesis unfolding Cons x by (rule reaches_same) simp_all
  qed
next
  case (13 i n k' s)
  show ?case
  proof (cases a)
    case Nil
    with 13 show ?thesis by (simp add: reaches_Nil)
  next
    case (Cons x a')
    with "13.prems" have x: "x = Re (Backref n)" and k: "k' = a' @ k" by auto
    show ?thesis
    proof (cases "caps s n")
      case None
      with "13.prems"(2) have "run i k' s = Some e" by simp
      with "13.IH"(1) [OF None k] have "reaches i a' k s e" by simp
      then show ?thesis unfolding Cons x by (rule reaches_same) simp_all
    next
      case (Some p)
      with "13.prems"(2) obtain s1 where s1: "eat i (slice p) s = Some s1"
        and r: "run i k' s1 = Some e"
        by (auto split: option.splits)
      from eat_suffix [OF s1] obtain w where w: "rest s = w @ rest s1" by blast
      show ?thesis
        unfolding Cons x
        by (rule reaches_step [OF "13.IH"(2) [OF Some s1 k r] w]) simp
    qed
  qed
next
  case (14 i r k' s)
  show ?case
  proof (cases a)
    case Nil
    with 14 show ?thesis by (simp add: reaches_Nil)
  next
    case (Cons x a')
    with "14.prems" have x: "x = Re (Ahead r)" and k: "k' = a' @ k" by auto
    from "14.prems"(2) obtain e1 where e1: "run i [Re r] s = Some e1"
      and r: "run i k' (s\<lparr>caps := caps e1\<rparr>) = Some e"
      by (auto split: option.splits)
    from "14.IH"(2) [OF e1 k r] show ?thesis
      unfolding Cons x by (rule reaches_same) simp_all
  qed
next
  case (15 i r k' s)
  show ?case
  proof (cases a)
    case Nil
    with 15 show ?thesis by (simp add: reaches_Nil)
  next
    case (Cons x a')
    with "15.prems" have x: "x = Re (NotAhead r)" and k: "k' = a' @ k" by auto
    from "15.prems"(2) have e1: "run i [Re r] s = None" and r: "run i k' s = Some e"
      by (auto split: option.splits)
    from "15.IH"(2) [OF e1 k r] show ?thesis
      unfolding Cons x by (rule reaches_same) simp_all
  qed
next
  case (16 i k' s)
  show ?case
  proof (cases a)
    case Nil
    with 16 show ?thesis by (simp add: reaches_Nil)
  next
    case (Cons x a')
    with "16.prems" have x: "x = Re Bol" and k: "k' = a' @ k" by auto
    from "16.prems"(2) have p: "prev s = None" and r: "run i k' s = Some e"
      by (auto split: if_splits)
    from "16.IH" [OF p k r] show ?thesis
      unfolding Cons x by (rule reaches_same) simp_all
  qed
next
  case (17 i k' s)
  show ?case
  proof (cases a)
    case Nil
    with 17 show ?thesis by (simp add: reaches_Nil)
  next
    case (Cons x a')
    with "17.prems" have x: "x = Re Eol" and k: "k' = a' @ k" by auto
    from "17.prems"(2) have p: "rest s = []" and r: "run i k' s = Some e"
      by (auto split: if_splits)
    from "17.IH" [OF p k r] show ?thesis
      unfolding Cons x by (rule reaches_same) simp_all
  qed
next
  case (18 i k' s)
  show ?case
  proof (cases a)
    case Nil
    with 18 show ?thesis by (simp add: reaches_Nil)
  next
    case (Cons x a')
    with "18.prems" have x: "x = Re WordB" and k: "k' = a' @ k" by auto
    from "18.prems"(2) have p: "wordAt (prev s) \<noteq> wordAt (peek s)" and r: "run i k' s = Some e"
      by (auto split: if_splits)
    from "18.IH" [OF p k r] show ?thesis
      unfolding Cons x by (rule reaches_same) simp_all
  qed
qed

section \<open>The string methods that take a pattern\<close>

definition at :: "char option \<Rightarrow> string \<Rightarrow> mstate" where
  "at pv str = \<lparr>prev = pv, rest = str, caps = Map.empty\<rparr>"

text \<open>
  A search for the first match at or after the current position: the text skipped, the input
  where the match starts, and the state where it ends.
\<close>

primrec search :: "bool \<Rightarrow> regex \<Rightarrow> char option \<Rightarrow> string \<Rightarrow> (string \<times> string \<times> mstate) option"
  where
  "search i r pv [] =
     (case run i [Re r] (at pv []) of
        Some e \<Rightarrow> Some ([], [], e)
      | None \<Rightarrow> None)"
| "search i r pv (c # cs) =
     (case run i [Re r] (at pv (c # cs)) of
        Some e \<Rightarrow> Some ([], c # cs, e)
      | None \<Rightarrow> map_option (\<lambda>(k, st, e). (c # k, st, e)) (search i r (Some c) cs))"

lemma search_Some:
  "search i r pv str = Some (k, st, e) \<Longrightarrow>
     str = k @ st \<and> run i [Re r] (at (if k = [] then pv else Some (last k)) st) = Some e"
proof (induction str arbitrary: pv k)
  case Nil
  then show ?case by (auto split: option.splits)
next
  case (Cons c cs)
  show ?case
  proof (cases "run i [Re r] (at pv (c # cs))")
    case None
    with Cons.prems obtain k' where k: "k = c # k'" and s: "search i r (Some c) cs = Some (k', st, e)"
      by auto
    from Cons.IH [OF s] show ?thesis using k by auto
  next
    case (Some e')
    with Cons.prems show ?thesis by auto
  qed
qed

lemma search_length:
  assumes "search i r pv str = Some (k, st, e)"
  shows "length (rest e) \<le> length st" and "length st \<le> length str"
proof -
  from search_Some [OF assms] have s: "str = k @ st"
    and r: "run i [Re r] (at (if k = [] then pv else Some (last k)) st) = Some e"
    by auto
  from run_length [OF r] show "length (rest e) \<le> length st" by (simp add: at_def)
  from s show "length st \<le> length str" by simp
qed

text \<open>Capture \<open>n\<close> of a match; a group that did not take part is the empty text here.\<close>

definition capture :: "mstate \<Rightarrow> nat \<Rightarrow> string" where
  "capture e n = (case caps e n of None \<Rightarrow> [] | Some p \<Rightarrow> slice p)"

text \<open>\<open>str.match(re)\<close> without the \<open>g\<close> flag: the end state of the first match.\<close>

definition js_match :: "bool \<Rightarrow> regex \<Rightarrow> string \<Rightarrow> mstate option" where
  "js_match i r str = map_option (\<lambda>(k, st, e). e) (search i r None str)"

text \<open>
  \<open>str.replace(re, '')\<close> with the \<open>g\<close> flag: every match is removed; after an empty match
  the search goes on one character further.
\<close>

function replaceAll :: "bool \<Rightarrow> regex \<Rightarrow> char option \<Rightarrow> string \<Rightarrow> string" where
  "replaceAll i r pv str =
     (case search i r pv str of
        None \<Rightarrow> str
      | Some (k, st, e) \<Rightarrow>
          if length (rest e) < length st then k @ replaceAll i r (prev e) (rest e)
          else (case st of
                  [] \<Rightarrow> k
                | c # cs \<Rightarrow> k @ c # replaceAll i r (Some c) cs))"
  by pat_completeness auto
termination
proof (relation "measure (\<lambda>(i, r, pv, str). length str)", goal_cases)
  case 1
  show ?case by simp
next
  case (2 i r pv str x2 k y st e)
  then show ?case using search_length [of i r pv str k st e] by simp
next
  case (3 i r pv str x2 k y st e c cs)
  then show ?case using search_length [of i r pv str k st e] by simp
qed

declare replaceAll.simps [simp del]

text \<open>\<open>str.replace(re, '')\<close> without the \<open>g\<close> flag: the first match is removed.\<close>

definition replaceFirst :: "bool \<Rightarrow> regex \<Rightarrow> string \<Rightarrow> string" where
  "replaceFirst i r str =
     (case search i r None str of
        None \<Rightarrow> str
      | Some (k, st, e) \<Rightarrow> k @ rest e)"

text \<open>
  \<open>str.match(re)\<close> with the \<open>g\<close> flag: the texts of all matches (the program reads
  \<open>null\<close> as the empty array).
\<close>

function matchAll :: "bool \<Rightarrow> regex \<Rightarrow> char option \<Rightarrow> string \<Rightarrow> string list" where
  "matchAll i r pv str =
     (case search i r pv str of
        None \<Rightarrow> []
      | Some (k, st, e) \<Rightarrow>
          if length (rest e) < length st
          then slice (st, rest e) # matchAll i r (prev e) (rest e)
          else (case st of
                  [] \<Rightarrow> [[]]
                | c # cs \<Rightarrow> [] # matchAll i r (Some c) cs))"
  by pat_completeness auto
termination
proof (relation "measure (\<lambda>(i, r, pv, str). length str)", goal_cases)
  case 1
  show ?case by simp
next
  case (2 i r pv str x2 k y st e)
  then show ?case using search_length [of i r pv str k st e] by simp
next
  case (3 i r pv str x2 k y st e c cs)
  then show ?case using search_length [of i r pv str k st e] by simp
qed

declare matchAll.simps [simp del]

text \<open>
  The loop \<open>while ((match = re.exec(str)) !== null)\<close> on a pattern with the \<open>g\<close> flag: each
  search starts at \<open>lastIndex\<close>, the end of the match before, and \<open>lastIndex\<close> is 0 in a
  pattern just created. The result lists the end states of the matches. After an empty match
  \<open>lastIndex\<close> would stay where it is and the loop would not end: that is \<open>None\<close>.
\<close>

function execAll :: "bool \<Rightarrow> regex \<Rightarrow> char option \<Rightarrow> string \<Rightarrow> mstate list option" where
  "execAll i r pv str =
     (case search i r pv str of
        None \<Rightarrow> Some []
      | Some (k, st, e) \<Rightarrow>
          if length (rest e) < length st
          then map_option (\<lambda>es. e # es) (execAll i r (prev e) (rest e))
          else None)"
  by pat_completeness auto
termination
proof (relation "measure (\<lambda>(i, r, pv, str). length str)", goal_cases)
  case 1
  show ?case by simp
next
  case (2 i r pv str x2 k y st e)
  then show ?case using search_length [of i r pv str k st e] by simp
qed

declare execAll.simps [simp del]

text \<open>
  \<open>str.split(re)\<close> for a pattern with one capture group: the pieces between the matches,
  each match followed by its capture. A match is tried at every index \<open>q\<close> below the length;
  a match that ends at the start \<open>p\<close> of the current piece is passed over.
\<close>

function split_loop :: "bool \<Rightarrow> regex \<Rightarrow> string \<Rightarrow> char option \<Rightarrow> string \<Rightarrow> string list" where
  "split_loop i r piece pv [] = [piece]"
| "split_loop i r piece pv (c # cs) =
     (case run i [Re r] (at pv (c # cs)) of
        None \<Rightarrow> split_loop i r (piece @ [c]) (Some c) cs
      | Some e \<Rightarrow>
          if piece = [] \<and> \<not> length (rest e) < length (c # cs)
          then split_loop i r (piece @ [c]) (Some c) cs
          else piece # capture e 1 # split_loop i r [] (prev e) (rest e))"
  by pat_completeness auto
termination
proof (relation "inv_image (less_than <*lex*> less_than)
         (\<lambda>(i, r, piece, pv, str). (length str, length piece))", goal_cases)
  case 1
  show ?case by auto
next
  case (2 i r piece pv c cs)
  then show ?case by simp
next
  case (3 i r piece pv c cs e)
  then show ?case by simp
next
  case (4 i r piece pv c cs e)
  from run_length [OF 4(1)] have "length (rest e) \<le> length (c # cs)" by (simp add: at_def)
  with 4 show ?case by (cases "piece = []") auto
qed

definition js_split :: "bool \<Rightarrow> regex \<Rightarrow> string \<Rightarrow> string list" where
  "js_split i r str =
     (if str = [] then (case run i [Re r] (at None []) of None \<Rightarrow> [[]] | Some e \<Rightarrow> [])
      else split_loop i r [] None str)"

section \<open>The question parser\<close>

record MCQ =
  id_mcq :: number
  question :: string
  optionA :: string
  optionB :: string
  optionC :: string
  optionD :: string
  correctAnswer :: string
  explanation :: string

text \<open>\<^verbatim>\<open>/Question\s+(\d+)\s*:/gi\<close>\<close>

definition splitPattern :: regex where
  "splitPattern = Cat [Lit ''Question'', Plus Space, Group 1 (Plus Digit), Star Space, Lit '':'']"

text \<open>\<^verbatim>\<open>/^([\s\S]+?)(?=\n\s*A\.)/i\<close>\<close>

definition questionPattern :: regex where
  "questionPattern =
     Cat [Bol, Group 1 (LazyPlus AnyChar), Ahead (Cat [Lit [NL], Star Space, Lit ''A.''])]"

text \<open>\<^verbatim>\<open>new RegExp(`${letter}\\.\\s*([\\s\\S]+?)(?=\\n\\s*${nextLetter}\\.)`, 'i')\<close>\<close>

definition optionPattern1 :: "string \<Rightarrow> string \<Rightarrow> regex" where
  "optionPattern1 letter nextLetter =
     Cat [Lit (letter @ ''.''), Star Space, Group 1 (LazyPlus AnyChar),
          Ahead (Cat [Lit [NL], Star Space, Lit (nextLetter @ ''.'')])]"

text \<open>\<^verbatim>\<open>new RegExp(`${letter}\\.\\s*(.+?)(?=\\n)`, 'i')\<close>\<close>

definition optionPattern2 :: "string \<Rightarrow> regex" where
  "optionPattern2 letter =
     Cat [Lit (letter @ ''.''), Star Space, Group 1 (LazyPlus Dot), Ahead (Lit [NL])]"

text \<open>\<^verbatim>\<open>new RegExp(`^${letter}\\.`, 'i')\<close> and \<^verbatim>\<open>new RegExp(`^${letter}\\.\\s*`, 'i')\<close>\<close>

definition linePattern :: "string \<Rightarrow> regex" where
  "linePattern letter = Cat [Bol, Lit (letter @ ''.'')]"

definition linePrefixPattern :: "string \<Rightarrow> regex" where
  "linePrefixPattern letter = Cat [Bol, Lit (letter @ ''.''), Star Space]"

text \<open>\<^verbatim>\<open>/Correct\s*Answer\s*[:\s]*([A-D])/i\<close>\<close>

definition correctPattern :: regex where
  "correctPattern =
     Cat [Lit ''Correct'', Star Space, Lit ''Answer'', Star Space,
          Star (Cls [AChr CHR '':'', ASpace]), Group 1 (OneOf ''ABCD'')]"

text \<open>\<^verbatim>\<open>/Explanation\s*[:\s]*([\s\S]+?)(?=\n\s*$|$)/i\<close>\<close>

definition explanationPattern :: regex where
  "explanationPattern =
     Cat [Lit ''Explanation'', Star Space, Star (Cls [AChr CHR '':'', ASpace]),
          Group 1 (LazyPlus AnyChar), Ahead (Alt (Cat [Lit [NL], Star Space, Eol]) Eol)]"

text \<open>
  One pattern of \<open>extractOption\<close>: \<open>match && match[1]\<close> holds when the pattern matches
  and its group is not empty, and then the trimmed group is returned.
\<close>

definition tryPattern :: "regex \<Rightarrow> string \<Rightarrow> string option" where
  "tryPattern r content =
     (case js_match True r content of
        None \<Rightarrow> None
      | Some e \<Rightarrow> if capture e 1 \<noteq> [] then Some (trim (capture e 1)) else None)"

text \<open>The fallback loop of \<open>extractOption\<close> over the lines.\<close>

fun lineScan :: "string \<Rightarrow> string list \<Rightarrow> string" where
  "lineScan letter [] = []"
| "lineScan letter (line # lines) =
     (if js_match True (linePattern letter) (trim line) \<noteq> None
      then trim (replaceFirst True (linePrefixPattern letter) line)
      else lineScan letter lines)"

definition extractOption :: "string \<Rightarrow> string \<Rightarrow> string \<Rightarrow> string" where
  "extractOption content letter nextLetter =
     (case tryPattern (optionPattern1 letter nextLetter) content of
        Some v \<Rightarrow> v
      | None \<Rightarrow>
          (case tryPattern (optionPattern2 letter) content of
             Some v \<Rightarrow> v
           | None \<Rightarrow> lineScan letter (splitLines content)))"

text \<open>
  The values of the local variables \<open>question\<close>, \<open>correctAnswer\<close> and \<open>explanation\<close> in the
  loop of \<open>parseMCQResponse\<close>, from \<open>questionContent\<close>.
\<close>

definition questionOf :: "string \<Rightarrow> string" where
  "questionOf questionContent =
     (case js_match True questionPattern questionContent of
        None \<Rightarrow> []
      | Some questionMatch \<Rightarrow> trim (capture questionMatch 1))"

definition correctAnswerOf :: "string \<Rightarrow> string" where
  "correctAnswerOf questionContent =
     (case js_match True correctPattern questionContent of
        None \<Rightarrow> ''A''
      | Some correctMatch \<Rightarrow> toUpperCase (capture correctMatch 1))"

definition explanationOf :: "string \<Rightarrow> string" where
  "explanationOf questionContent =
     (case js_match True explanationPattern questionContent of
        None \<Rightarrow> ''The correct answer is '' @ correctAnswerOf questionContent @ ''.''
      | Some explanationMatch \<Rightarrow> trim (capture explanationMatch 1))"

text \<open>
  The body of the loop of \<open>parseMCQResponse\<close> for one pair \<open>parts[i]\<close>, \<open>parts[i + 1]\<close>:
  \<open>None\<close> is \<open>continue\<close>, \<open>Some\<close> the record pushed. Nothing in the \<open>try\<close> block throws.
\<close>

definition parseSegment :: "number \<Rightarrow> string \<Rightarrow> MCQ option" where
  "parseSegment questionNum questionContent =
     (if questionContent = [] \<or> length questionContent < 50 then None
      else
        let question = questionOf questionContent
        in
          if question = [] \<or> length question < 10 then None
          else
            let optionA = extractOption questionContent ''A'' ''B'';
                optionB = extractOption questionContent ''B'' ''C'';
                optionC = extractOption questionContent ''C'' ''D'';
                optionD = extractOption questionContent ''D'' ''Correct''
            in
              if optionA = [] \<or> optionB = [] \<or> optionC = [] \<or> optionD = [] then None
              else
                Some \<lparr>id_mcq = questionNum, question = question,
                      optionA = optionA, optionB = optionB, optionC = optionC,
                      optionD = optionD, correctAnswer = correctAnswerOf questionContent,
                      explanation = explanationOf questionContent\<rparr>)"

text \<open>
  The loop \<open>for (let i = 1; i < parts.length; i += 2)\<close> over \<open>parts\<close> from index \<open>i\<close> on; a
  missing \<open>parts[i + 1]\<close> is \<open>undefined\<close> and the iteration is skipped.
\<close>

fun segmentLoop :: "string list \<Rightarrow> MCQ list" where
  "segmentLoop (num # body # ps) =
     (case parseSegment (parseInt num) body of
        None \<Rightarrow> segmentLoop ps
      | Some q \<Rightarrow> q # segmentLoop ps)"
| "segmentLoop [num] = []"
| "segmentLoop [] = []"

definition parseMCQResponse :: "string \<Rightarrow> MCQ list" where
  "parseMCQResponse content = segmentLoop (drop 1 (js_split True splitPattern content))"

section \<open>The HTML block extractor\<close>

text \<open>
  A block as \<open>parseHtmlToBlocks\<close> builds it: \<open>type\<close> and \<open>content\<close>, and \<open>level\<close> or
  \<open>items\<close> where the block has one.
\<close>

record block =
  type_blk :: string
  content :: string
  level :: "number option"
  items :: "string list option"

text \<open>\<^verbatim>\<open>/<script\b[^<]*(?:(?!<\/script>)<[^<]*)*<\/script>/gi\<close> and the same for \<open>style\<close>\<close>

definition elementPattern :: "string \<Rightarrow> regex" where
  "elementPattern name =
     Cat [Lit (''<'' @ name), WordB, Star (NoneOf ''<''),
          Star (Cat [NotAhead (Lit (''</'' @ name @ ''>'')), Lit ''<'', Star (NoneOf ''<'')]),
          Lit (''</'' @ name @ ''>'')]"

text \<open>\<^verbatim>\<open>/<[^>]+>/g\<close>\<close>

definition tagPattern :: regex where
  "tagPattern = Cat [Lit ''<'', Plus (NoneOf ''>''), Lit ''>'']"

text \<open>\<^verbatim>\<open>/<h([1-6])[^>]*>([\s\S]*?)<\/h\1>/gi\<close>\<close>

definition headingRegex :: regex where
  "headingRegex =
     Cat [Lit ''<h'', Group 1 (OneOf ''123456''), Star (NoneOf ''>''), Lit ''>'',
          Group 2 (LazyStar AnyChar), Lit ''</h'', Backref 1, Lit ''>'']"

text \<open>\<^verbatim>\<open>/<p[^>]*>([\s\S]*?)<\/p>/gi\<close>\<close>

definition paragraphRegex :: regex where
  "paragraphRegex =
     Cat [Lit ''<p'', Star (NoneOf ''>''), Lit ''>'', Group 1 (LazyStar AnyChar), Lit ''</p>'']"

text \<open>\<^verbatim>\<open>/<(ul|ol)[^>]*>([\s\S]*?)<\/\1>/gi\<close>\<close>

definition listRegex :: regex where
  "listRegex =
     Cat [Lit ''<'', Group 1 (Alt (Lit ''ul'') (Lit ''ol'')), Star (NoneOf ''>''), Lit ''>'',
          Group 2 (LazyStar AnyChar), Lit ''</'', Backref 1, Lit ''>'']"

text \<open>\<^verbatim>\<open>/<li[^>]*>([\s\S]*?)<\/li>/gi\<close>\<close>

definition itemPattern :: regex where
  "itemPattern =
     Cat [Lit ''<li'', Star (NoneOf ''>''), Lit ''>'', Group 1 (LazyStar AnyChar), Lit ''</li>'']"

text \<open>\<^verbatim>\<open>/<blockquote[^>]*>([\s\S]*?)<\/blockquote>/gi\<close>\<close>

definition blockquoteRegex :: regex where
  "blockquoteRegex =
     Cat [Lit ''<blockquote'', Star (NoneOf ''>''), Lit ''>'', Group 1 (LazyStar AnyChar),
          Lit ''</blockquote>'']"

text \<open>\<^verbatim>\<open>.replace(/<[^>]+>/g, '').trim()\<close>\<close>

definition stripTags :: "string \<Rightarrow> string" where
  "stripTags s = trim (replaceAll False tagPattern None s)"

text \<open>The bodies of the four loops: the blocks that one match pushes.\<close>

definition headingBlock :: "mstate \<Rightarrow> block list" where
  "headingBlock m =
     (let level = parseInt (capture m 1);
          content = stripTags (capture m 2)
      in if content \<noteq> []
         then [\<lparr>type_blk = ''heading'', content = content, level = Some level, items = None\<rparr>]
         else [])"

definition paragraphBlock :: "mstate \<Rightarrow> block list" where
  "paragraphBlock m =
     (let content = stripTags (capture m 1)
      in if content \<noteq> [] \<and> length content > 20
         then [\<lparr>type_blk = ''paragraph'', content = content, level = None, items = None\<rparr>]
         else [])"

definition listBlock :: "mstate \<Rightarrow> block list" where
  "listBlock m =
     (let listType = capture m 1;
          listItems = matchAll True itemPattern None (capture m 2);
          items = filter (\<lambda>item. item \<noteq> []) (map stripTags listItems)
      in if length items > 0
         then [\<lparr>type_blk = (if listType = ''ol'' then ''ordered-list'' else ''unordered-list''),
                content = join '', '' items, level = None, items = Some items\<rparr>]
         else [])"

definition quoteBlock :: "mstate \<Rightarrow> block list" where
  "quoteBlock m =
     (let content = stripTags (capture m 1)
      in if content \<noteq> []
         then [\<lparr>type_blk = ''quote'', content = content, level = None, items = None\<rparr>]
         else [])"

text \<open>
  \<open>parseHtmlToBlocks\<close>: \<open>None\<close> when one of its four loops does not end. Every pattern is
  created by the call that uses it.
\<close>

definition parseHtmlToBlocks :: "string \<Rightarrow> block list option" where
  "parseHtmlToBlocks html =
     (let cleanHtml = replaceAll True (elementPattern ''script'') None html;
          cleanHtml = replaceAll True (elementPattern ''style'') None cleanHtml
      in case execAll True headingRegex None cleanHtml of
           None \<Rightarrow> None
         | Some hs \<Rightarrow>
        (case execAll True paragraphRegex None cleanHtml of
           None \<Rightarrow> None
         | Some ps \<Rightarrow>
        (case execAll True listRegex None cleanHtml of
           None \<Rightarrow> None
         | Some ls \<Rightarrow>
        (case execAll True blockquoteRegex None cleanHtml of
           None \<Rightarrow> None
         | Some qs \<Rightarrow>
             Some (concat (map headingBlock hs) @ concat (map paragraphBlock ps) @
                   concat (map listBlock ls) @ concat (map quoteBlock qs))))))"

text \<open>
  The patterns that \<open>extractMainContent\<close> removes, each with its \<open>i\<close> flag:
  \<^verbatim>\<open>/<nav\b[^>]*>[\s\S]*?<\/nav>/gi\<close> and the same for \<open>header\<close>, \<open>footer\<close> and \<open>aside\<close>,
  \<^verbatim>\<open>/<div[^>]*class="[^"]*(?:sidebar|advertisement|ads|comments|related|social|share)[^"]*"[^>]*>[\s\S]*?<\/div>/gi\<close>
  and \<^verbatim>\<open>/<!--[\s\S]*?-->/g\<close>.
\<close>

definition containerPattern :: "string \<Rightarrow> regex" where
  "containerPattern name =
     Cat [Lit (''<'' @ name), WordB, Star (NoneOf ''>''), Lit ''>'', LazyStar AnyChar,
          Lit (''</'' @ name @ ''>'')]"

definition boilerplateTokens :: regex where
  "boilerplateTokens =
     Alt (Lit ''sidebar'') (Alt (Lit ''advertisement'') (Alt (Lit ''ads'') (Alt (Lit ''comments'')
       (Alt (Lit ''related'') (Alt (Lit ''social'') (Lit ''share''))))))"

definition divPattern :: regex where
  "divPattern =
     Cat [Lit ''<div'', Star (NoneOf ''>''), Lit (''class='' @ [DQ]), Star (NoneOf [DQ]),
          boilerplateTokens, Star (NoneOf [DQ]), Lit [DQ], Star (NoneOf ''>''), Lit ''>'',
          LazyStar AnyChar, Lit ''</div>'']"

definition commentPattern :: regex where
  "commentPattern = Cat [Lit ''<!--'', LazyStar AnyChar, Lit ''-->'']"

definition removePatterns :: "(bool \<times> regex) list" where
  "removePatterns =
     [(True, containerPattern ''nav''), (True, containerPattern ''header''),
      (True, containerPattern ''footer''), (True, containerPattern ''aside''),
      (True, divPattern), (False, commentPattern)]"

text \<open>\<^verbatim>\<open>/<article[^>]*>([\s\S]*?)<\/article>/i\<close> and the same for \<open>main\<close>\<close>

definition bodyPattern :: "string \<Rightarrow> regex" where
  "bodyPattern name =
     Cat [Lit (''<'' @ name), Star (NoneOf ''>''), Lit ''>'', Group 1 (LazyStar AnyChar),
          Lit (''</'' @ name @ ''>'')]"

definition extractMainContent :: "string \<Rightarrow> string" where
  "extractMainContent html =
     (let content = foldl (\<lambda>content (i, pattern). replaceAll i pattern None content)
                      html removePatterns
      in case js_match True (bodyPattern ''article'') content of
           Some articleMatch \<Rightarrow> capture articleMatch 1
         | None \<Rightarrow>
             (case js_match True (bodyPattern ''main'') content of
                Some mainMatch \<Rightarrow> capture mainMatch 1
              | None \<Rightarrow> content))"

text \<open>The two functions as \<open>smartScrape\<close> calls them, one after the other.\<close>

definition extractBlocks :: "string \<Rightarrow> block list option" where
  "extractBlocks html = parseHtmlToBlocks (extractMainContent html)"

section \<open>Patterns as objects of the runtime\<close>

text \<open>
  A pattern is a \<open>RegExp\<close> object: next to its source and its \<open>i\<close> and \<open>g\<close> flags it
  holds \<open>lastIndex\<close>, which \<open>exec\<close> reads and writes when the pattern has the \<open>g\<close> flag.
  This is the state that a pattern can carry from one use to the next.
\<close>

record regexp =
  source :: regex
  ignoreCase :: bool
  global :: bool
  lastIndex :: nat

text \<open>
  The lines that the program writes to the console: \<open>console.log\<close> at the start of
  \<open>parseMCQResponse\<close> and for a segment with a missing option.
\<close>

datatype logLine = LogParsing | LogSkipping number

text \<open>
  What outlives a call: the \<open>RegExp\<close> objects created so far, each at its address (its
  index in the list), and the lines written to the console.
\<close>

record world =
  objects :: "regexp list"
  console :: "logLine list"

text \<open>
  A pattern literal and \<open>new RegExp\<close> create a new object each time they are evaluated;
  its \<open>lastIndex\<close> is 0.
\<close>

definition newRegExp :: "regex \<Rightarrow> bool \<Rightarrow> bool \<Rightarrow> world \<Rightarrow> nat \<times> world" where
  "newRegExp r i g \<sigma> =
     (length (objects \<sigma>),
      \<sigma>\<lparr>objects := objects \<sigma> @ [\<lparr>source = r, ignoreCase = i, global = g, lastIndex = 0\<rparr>]\<rparr>)"

text \<open>A method of the object at address \<open>a\<close>: it returns a value and may change the object.\<close>

definition call :: "nat \<Rightarrow> (regexp \<Rightarrow> 'a \<times> regexp) \<Rightarrow> world \<Rightarrow> 'a \<times> world" where
  "call a method \<sigma> =
     (case method (objects \<sigma> ! a) of (x, R) \<Rightarrow> (x, \<sigma>\<lparr>objects := (objects \<sigma>)[a := R]\<rparr>))"

text \<open>The character before index \<open>n\<close> of a string.\<close>

definition charBefore :: "string \<Rightarrow> nat \<Rightarrow> char option" where
  "charBefore str n = (if n = 0 then None else Some (str ! (n - 1)))"

text \<open>
  \<open>RegExpBuiltinExec\<close>: the search starts at \<open>lastIndex\<close>, or at 0 without the \<open>g\<close> flag.
  With the \<open>g\<close> flag \<open>lastIndex\<close> becomes the end of the match, or 0 when there is none. A
  match is given as for \<open>search\<close>: the text skipped, the input at its start, the state at its
  end.
\<close>

type_synonym found = "string \<times> string \<times> mstate"

definition regExpExec :: "string \<Rightarrow> regexp \<Rightarrow> found option \<times> regexp" where
  "regExpExec str R =
     (let l = (if global R then lastIndex R else 0)
      in if length str < l then (None, if global R then R\<lparr>lastIndex := 0\<rparr> else R)
         else
           (case search (ignoreCase R) (source R) (charBefore str l) (drop l str) of
              None \<Rightarrow> (None, if global R then R\<lparr>lastIndex := 0\<rparr> else R)
            | Some (k, st, e) \<Rightarrow>
                (Some (k, st, e),
                 if global R then R\<lparr>lastIndex := length str - length (rest e)\<rparr> else R)))"

lemma regExpExec_Some:
  assumes "regExpExec str R = (Some (k, st, e), R1)"
  shows "length (rest e) \<le> length st"
    and "global R \<Longrightarrow> lastIndex R \<le> length str - length st"
    and "length st \<le> length str"
    and "global R \<Longrightarrow> lastIndex R1 = length str - length (rest e)"
proof -
  define l where "l = (if global R then lastIndex R else 0)"
  from assms have l: "l \<le> length str"
    and s: "search (ignoreCase R) (source R) (charBefore str l) (drop l str) = Some (k, st, e)"
    and r: "R1 = (if global R then R\<lparr>lastIndex := length str - length (rest e)\<rparr> else R)"
    by (auto simp: regExpExec_def Let_def l_def split: if_splits option.splits)
  from search_length [OF s] show "length (rest e) \<le> length st" by simp
  from search_length [OF s] l show "length st \<le> length str" by simp
  from search_length [OF s] l show "global R \<Longrightarrow> lastIndex R \<le> length str - length st"
    by (simp add: l_def)
  from r show "global R \<Longrightarrow> lastIndex R1 = length str - length (rest e)" by simp
qed

text \<open>
  The loop of \<open>RegExp.prototype[@@replace]\<close> and of \<open>RegExp.prototype[@@match]\<close>: one
  \<open>exec\<close> without the \<open>g\<close> flag; with it, \<open>exec\<close> until \<open>null\<close>, and after an empty
  match \<open>lastIndex\<close> is moved on by one.
\<close>

function everyMatch :: "string \<Rightarrow> regexp \<Rightarrow> found list \<times> regexp" where
  "everyMatch str R =
     (case regExpExec str R of
        (None, R1) \<Rightarrow> ([], R1)
      | (Some (k, st, e), R1) \<Rightarrow>
          if \<not> global R then ([(k, st, e)], R1)
          else
            (case everyMatch str
                    (if length (rest e) = length st then R1\<lparr>lastIndex := lastIndex R1 + 1\<rparr>
                     else R1) of
               (ms, R2) \<Rightarrow> ((k, st, e) # ms, R2)))"
  by pat_completeness auto
termination
proof (relation "measure (\<lambda>(str, R). Suc (length str) - lastIndex R)", goal_cases)
  case 1
  show ?case by simp
next
  case (2 str R x R1 m k y st e)
  then have x: "regExpExec str R = (Some (k, st, e), R1)" and g: "global R" by simp_all
  from regExpExec_Some [OF x] g show ?case by auto
qed

declare everyMatch.simps [simp del]

text \<open>
  The result of \<open>replace\<close> with the empty replacement: the text between the matches, from
  their positions.
\<close>

fun accumulate :: "string \<Rightarrow> nat \<Rightarrow> found list \<Rightarrow> string" where
  "accumulate str nextSourcePosition [] = drop nextSourcePosition str"
| "accumulate str nextSourcePosition ((k, st, e) # ms) =
     (let position = length str - length st;
          matchLength = length st - length (rest e)
      in if nextSourcePosition \<le> position
         then take (position - nextSourcePosition) (drop nextSourcePosition str) @
              accumulate str (position + matchLength) ms
         else accumulate str nextSourcePosition ms)"

text \<open>
  \<open>str.replace(re, '')\<close>, \<open>str.match(re)\<close> without and with the \<open>g\<close> flag, and
  \<open>str.split(re)\<close>. With the \<open>g\<close> flag, \<open>replace\<close> and \<open>match\<close> first set \<open>lastIndex\<close>
  to 0. \<open>split\<close> works on a copy of the pattern that it makes and leaves the pattern alone.
\<close>

definition symbolReplace :: "string \<Rightarrow> regexp \<Rightarrow> string \<times> regexp" where
  "symbolReplace str R =
     (case everyMatch str (if global R then R\<lparr>lastIndex := 0\<rparr> else R) of
        (ms, R1) \<Rightarrow> (accumulate str 0 ms, R1))"

definition symbolMatch :: "string \<Rightarrow> regexp \<Rightarrow> mstate option \<times> regexp" where
  "symbolMatch str R =
     (case regExpExec str R of (m, R1) \<Rightarrow> (map_option (\<lambda>(k, st, e). e) m, R1))"

definition symbolMatchAll :: "string \<Rightarrow> regexp \<Rightarrow> string list \<times> regexp" where
  "symbolMatchAll str R =
     (case everyMatch str (R\<lparr>lastIndex := 0\<rparr>) of
        (ms, R1) \<Rightarrow> (map (\<lambda>(k, st, e). slice (st, rest e)) ms, R1))"

definition symbolSplit :: "string \<Rightarrow> regexp \<Rightarrow> string list \<times> regexp" where
  "symbolSplit str R = (js_split (ignoreCase R) (source R) str, R)"

text \<open>
  The loop \<open>while ((match = re.exec(str)) !== null) { ... }\<close> for the pattern at address
  \<open>a\<close>; \<open>body\<close> gives the blocks that an iteration pushes. The loop need not end: the result
  is \<open>None\<close> then.
\<close>

partial_function (option) execLoop ::
  "nat \<Rightarrow> string \<Rightarrow> (mstate \<Rightarrow> world \<Rightarrow> block list \<times> world) \<Rightarrow> block list \<Rightarrow> world
     \<Rightarrow> (block list \<times> world) option"
where
  "execLoop a str body blocks \<sigma> =
     (case call a (regExpExec str) \<sigma> of
        (None, \<sigma>) \<Rightarrow> Some (blocks, \<sigma>)
      | (Some (k, st, m), \<sigma>) \<Rightarrow>
          (case body m \<sigma> of (pushed, \<sigma>) \<Rightarrow> execLoop a str body (blocks @ pushed) \<sigma>))"

declare execLoop.simps [code]

section \<open>The program with the state of the runtime\<close>

text \<open>
  The functions of the program once more, now with the state that they find and leave: every
  pattern literal allocates its object where the program evaluates it, and every method works
  on that object. The functions above give the values; that both agree is proved below.
\<close>

definition stripTags_st :: "string \<Rightarrow> world \<Rightarrow> string \<times> world" where
  "stripTags_st s \<sigma> =
     (let (a, \<sigma>) = newRegExp tagPattern False True \<sigma>;
          (t, \<sigma>) = call a (symbolReplace s) \<sigma>
      in (trim t, \<sigma>))"

definition headingBlock_st :: "mstate \<Rightarrow> world \<Rightarrow> block list \<times> world" where
  "headingBlock_st m \<sigma> =
     (let level = parseInt (capture m 1);
          (content, \<sigma>) = stripTags_st (capture m 2) \<sigma>
      in (if content \<noteq> []
          then [\<lparr>type_blk = ''heading'', content = content, level = Some level, items = None\<rparr>]
          else [], \<sigma>))"

definition paragraphBlock_st :: "mstate \<Rightarrow> world \<Rightarrow> block list \<times> world" where
  "paragraphBlock_st m \<sigma> =
     (let (content, \<sigma>) = stripTags_st (capture m 1) \<sigma>
      in (if content \<noteq> [] \<and> length content > 20
          then [\<lparr>type_blk = ''paragraph'', content = content, level = None, items = None\<rparr>]
          else [], \<sigma>))"

text \<open>\<open>listItems.map(item => item.replace(/<[^>]+>/g, '').trim())\<close>\<close>

fun stripEach :: "string list \<Rightarrow> world \<Rightarrow> string list \<times> world" where
  "stripEach [] \<sigma> = ([], \<sigma>)"
| "stripEach (item # listItems) \<sigma> =
     (let (t, \<sigma>) = stripTags_st item \<sigma>;
          (ts, \<sigma>) = stripEach listItems \<sigma>
      in (t # ts, \<sigma>))"

definition listBlock_st :: "mstate \<Rightarrow> world \<Rightarrow> block list \<times> world" where
  "listBlock_st m \<sigma> =
     (let listType = capture m 1;
          (a, \<sigma>) = newRegExp itemPattern True True \<sigma>;
          (listItems, \<sigma>) = call a (symbolMatchAll (capture m 2)) \<sigma>;
          (stripped, \<sigma>) = stripEach listItems \<sigma>;
          items = filter (\<lambda>item. item \<noteq> []) stripped
      in (if length items > 0
          then [\<lparr>type_blk = (if listType = ''ol'' then ''ordered-list'' else ''unordered-list''),
                 content = join '', '' items, level = None, items = Some items\<rparr>]
          else [], \<sigma>))"

definition quoteBlock_st :: "mstate \<Rightarrow> world \<Rightarrow> block list \<times> world" where
  "quoteBlock_st m \<sigma> =
     (let (content, \<sigma>) = stripTags_st (capture m 1) \<sigma>
      in (if content \<noteq> []
          then [\<lparr>type_blk = ''quote'', content = content, level = None, items = None\<rparr>]
          else [], \<sigma>))"

definition parseHtmlToBlocks_st :: "string \<Rightarrow> world \<Rightarrow> (block list \<times> world) option" where
  "parseHtmlToBlocks_st html \<sigma> =
     (let (a, \<sigma>) = newRegExp (elementPattern ''script'') True True \<sigma>;
          (cleanHtml, \<sigma>) = call a (symbolReplace html) \<sigma>;
          (a, \<sigma>) = newRegExp (elementPattern ''style'') True True \<sigma>;
          (cleanHtml, \<sigma>) = call a (symbolReplace cleanHtml) \<sigma>;
          (a, \<sigma>) = newRegExp headingRegex True True \<sigma>
      in case execLoop a cleanHtml headingBlock_st [] \<sigma> of
           None \<Rightarrow> None
         | Some (blocks, \<sigma>) \<Rightarrow>
        (let (a, \<sigma>) = newRegExp paragraphRegex True True \<sigma>
         in case execLoop a cleanHtml paragraphBlock_st blocks \<sigma> of
           None \<Rightarrow> None
         | Some (blocks, \<sigma>) \<Rightarrow>
        (let (a, \<sigma>) = newRegExp listRegex True True \<sigma>
         in case execLoop a cleanHtml listBlock_st blocks \<sigma> of
           None \<Rightarrow> None
         | Some (blocks, \<sigma>) \<Rightarrow>
        (let (a, \<sigma>) = newRegExp blockquoteRegex True True \<sigma>
         in execLoop a cleanHtml quoteBlock_st blocks \<sigma>))))"

text \<open>The array \<open>removePatterns\<close>, and the loop that applies each of its patterns.\<close>

fun newRegExps :: "(bool \<times> regex) list \<Rightarrow> world \<Rightarrow> nat list \<times> world" where
  "newRegExps [] \<sigma> = ([], \<sigma>)"
| "newRegExps ((i, r) # ps) \<sigma> =
     (let (a, \<sigma>) = newRegExp r i True \<sigma>;
          (as, \<sigma>) = newRegExps ps \<sigma>
      in (a # as, \<sigma>))"

fun replaceEach :: "nat list \<Rightarrow> string \<Rightarrow> world \<Rightarrow> string \<times> world" where
  "replaceEach [] str \<sigma> = (str, \<sigma>)"
| "replaceEach (pattern # patterns) str \<sigma> =
     (let (str, \<sigma>) = call pattern (symbolReplace str) \<sigma>
      in replaceEach patterns str \<sigma>)"

definition extractMainContent_st :: "string \<Rightarrow> world \<Rightarrow> string \<times> world" where
  "extractMainContent_st html \<sigma> =
     (let (patterns, \<sigma>) = newRegExps removePatterns \<sigma>;
          (content, \<sigma>) = replaceEach patterns html \<sigma>;
          (a, \<sigma>) = newRegExp (bodyPattern ''article'') True False \<sigma>;
          (articleMatch, \<sigma>) = call a (symbolMatch content) \<sigma>
      in case articleMatch of
           Some m \<Rightarrow> (capture m 1, \<sigma>)
         | None \<Rightarrow>
             (let (a, \<sigma>) = newRegExp (bodyPattern ''main'') True False \<sigma>;
                  (mainMatch, \<sigma>) = call a (symbolMatch content) \<sigma>
              in case mainMatch of
                   Some m \<Rightarrow> (capture m 1, \<sigma>)
                 | None \<Rightarrow> (content, \<sigma>)))"

definition extractBlocks_st :: "string \<Rightarrow> world \<Rightarrow> (block list \<times> world) option" where
  "extractBlocks_st html \<sigma> =
     (let (content, \<sigma>) = extractMainContent_st html \<sigma>
      in parseHtmlToBlocks_st content \<sigma>)"

text \<open>The question parser: the two patterns of \<open>extractOption\<close> are created before the first is tried.\<close>

definition tryPattern_st :: "nat \<Rightarrow> string \<Rightarrow> world \<Rightarrow> string option \<times> world" where
  "tryPattern_st pattern str \<sigma> =
     (let (m, \<sigma>) = call pattern (symbolMatch str) \<sigma>
      in (case m of
            None \<Rightarrow> None
          | Some e \<Rightarrow> if capture e 1 \<noteq> [] then Some (trim (capture e 1)) else None, \<sigma>))"

fun lineScan_st :: "string \<Rightarrow> string list \<Rightarrow> world \<Rightarrow> string \<times> world" where
  "lineScan_st letter [] \<sigma> = ([], \<sigma>)"
| "lineScan_st letter (line # lines) \<sigma> =
     (let (a, \<sigma>) = newRegExp (linePattern letter) True False \<sigma>;
          (m, \<sigma>) = call a (symbolMatch (trim line)) \<sigma>
      in if m \<noteq> None
         then (let (a, \<sigma>) = newRegExp (linePrefixPattern letter) True False \<sigma>;
                   (t, \<sigma>) = call a (symbolReplace line) \<sigma>
               in (trim t, \<sigma>))
         else lineScan_st letter lines \<sigma>)"

definition extractOption_st :: "string \<Rightarrow> string \<Rightarrow> string \<Rightarrow> world \<Rightarrow> string \<times> world" where
  "extractOption_st str letter nextLetter \<sigma> =
     (let (p1, \<sigma>) = newRegExp (optionPattern1 letter nextLetter) True False \<sigma>;
          (p2, \<sigma>) = newRegExp (optionPattern2 letter) True False \<sigma>;
          (r, \<sigma>) = tryPattern_st p1 str \<sigma>
      in case r of
           Some v \<Rightarrow> (v, \<sigma>)
         | None \<Rightarrow>
             (let (r, \<sigma>) = tryPattern_st p2 str \<sigma>
              in case r of
                   Some v \<Rightarrow> (v, \<sigma>)
                 | None \<Rightarrow> lineScan_st letter (splitLines str) \<sigma>))"

definition parseSegment_st :: "number \<Rightarrow> string \<Rightarrow> world \<Rightarrow> MCQ option \<times> world" where
  "parseSegment_st questionNum questionContent \<sigma> =
     (if questionContent = [] \<or> length questionContent < 50 then (None, \<sigma>)
      else
        let (a, \<sigma>) = newRegExp questionPattern True False \<sigma>;
            (questionMatch, \<sigma>) = call a (symbolMatch questionContent) \<sigma>;
            question = (case questionMatch of None \<Rightarrow> [] | Some m \<Rightarrow> trim (capture m 1))
        in
          if question = [] \<or> length question < 10 then (None, \<sigma>)
          else
            let (optionA, \<sigma>) = extractOption_st questionContent ''A'' ''B'' \<sigma>;
                (optionB, \<sigma>) = extractOption_st questionContent ''B'' ''C'' \<sigma>;
                (optionC, \<sigma>) = extractOption_st questionContent ''C'' ''D'' \<sigma>;
                (optionD, \<sigma>) = extractOption_st questionContent ''D'' ''Correct'' \<sigma>
            in
              if optionA = [] \<or> optionB = [] \<or> optionC = [] \<or> optionD = []
              then (None, \<sigma>\<lparr>console := console \<sigma> @ [LogSkipping questionNum]\<rparr>)
              else
                let (a, \<sigma>) = newRegExp correctPattern True False \<sigma>;
                    (correctMatch, \<sigma>) = call a (symbolMatch questionContent) \<sigma>;
                    correctAnswer = (case correctMatch of
                                       None \<Rightarrow> ''A''
                                     | Some m \<Rightarrow> toUpperCase (capture m 1));
                    (a, \<sigma>) = newRegExp explanationPattern True False \<sigma>;
                    (explanationMatch, \<sigma>) = call a (symbolMatch questionContent) \<sigma>;
                    explanation = (case explanationMatch of
                                     None \<Rightarrow> ''The correct answer is '' @ correctAnswer @ ''.''
                                   | Some m \<Rightarrow> trim (capture m 1))
                in (Some \<lparr>id_mcq = questionNum, question = question,
                           optionA = optionA, optionB = optionB, optionC = optionC,
                           optionD = optionD, correctAnswer = correctAnswer,
                           explanation = explanation\<rparr>, \<sigma>))"

fun segmentLoop_st :: "string list \<Rightarrow> MCQ list \<Rightarrow> world \<Rightarrow> MCQ list \<times> world" where
  "segmentLoop_st (num # body # ps) mcqs \<sigma> =
     (let (r, \<sigma>) = parseSegment_st (parseInt num) body \<sigma>
      in case r of
           None \<Rightarrow> segmentLoop_st ps mcqs \<sigma>
         | Some q \<Rightarrow> segmentLoop_st ps (mcqs @ [q]) \<sigma>)"
| "segmentLoop_st [num] mcqs \<sigma> = (mcqs, \<sigma>)"
| "segmentLoop_st [] mcqs \<sigma> = (mcqs, \<sigma>)"

definition parseMCQResponse_st :: "string \<Rightarrow> world \<Rightarrow> MCQ list \<times> world" where
  "parseMCQResponse_st input \<sigma> =
     (let \<sigma> = \<sigma>\<lparr>console := console \<sigma> @ [LogParsing]\<rparr>;
          (a, \<sigma>) = newRegExp splitPattern True True \<sigma>;
          (parts, \<sigma>) = call a (symbolSplit input) \<sigma>
      in segmentLoop_st (drop 1 parts) [] \<sigma>)"

section \<open>Properties of the HTML block extractor\<close>

lemma run_consuming_shorter:
  assumes "consuming r" and "run i [Re r] s = Some e"
  shows "length (rest e) < length (rest s)"
proof -
  from run_append_reaches [of "[Re r]" "[Re r]" "[]" i s e] assms(2)
  have "reaches i [Re r] [] s e" by simp
  then obtain s' w where "run i [] s' = Some e" "rest s = w @ rest s'" "w \<noteq> []"
    unfolding reaches_def using assms(1) by auto
  then show ?thesis by simp
qed

lemma execAll_total: "consuming r \<Longrightarrow> \<exists>es. execAll i r pv str = Some es"
proof (induction i r pv str rule: execAll.induct)
  case (1 i r pv str)
  show ?case
  proof (cases "search i r pv str")
    case None
    then show ?thesis by (subst execAll.simps) simp
  next
    case (Some t)
    then obtain k st e where t: "search i r pv str = Some (k, st, e)" by (cases t) auto
    from search_Some [OF t] have "run i [Re r] (at (if k = [] then pv else Some (last k)) st) = Some e"
      by simp
    from run_consuming_shorter [OF "1.prems" this] have l: "length (rest e) < length st"
      by (simp add: at_def)
    from "1.IH" [OF t refl refl l "1.prems"] obtain es where "execAll i r (prev e) (rest e) = Some es" by blast
    then show ?thesis using t l by (subst execAll.simps) simp
  qed
qed

lemma consuming_patterns:
  "consuming headingRegex" "consuming paragraphRegex" "consuming listRegex"
  "consuming blockquoteRegex"
  by (simp_all add: headingRegex_def paragraphRegex_def listRegex_def blockquoteRegex_def)

lemma headingBlock_type: "b \<in> set (headingBlock e) \<Longrightarrow> type_blk b = ''heading''"
  by (simp add: headingBlock_def Let_def split: if_splits)

lemma paragraphBlock_type: "b \<in> set (paragraphBlock e) \<Longrightarrow> type_blk b = ''paragraph''"
  by (simp add: paragraphBlock_def Let_def split: if_splits)

lemma listBlock_type:
  "b \<in> set (listBlock e) \<Longrightarrow> type_blk b = ''ordered-list'' \<or> type_blk b = ''unordered-list''"
  by (simp add: listBlock_def Let_def split: if_splits)

lemma quoteBlock_type: "b \<in> set (quoteBlock e) \<Longrightarrow> type_blk b = ''quote''"
  by (simp add: quoteBlock_def Let_def split: if_splits)

definition interleaved :: string where
  "interleaved = ''<h2>Alpha</h2><p>A paragraph of enough text.</p><h2>Beta</h2>''"

lemma interleaved_blocks:
  "parseHtmlToBlocks interleaved =
     Some [\<lparr>type_blk = ''heading'', content = ''Alpha'', level = Some (Finite 2), items = None\<rparr>,
           \<lparr>type_blk = ''heading'', content = ''Beta'', level = Some (Finite 2), items = None\<rparr>,
           \<lparr>type_blk = ''paragraph'', content = ''A paragraph of enough text.'',
              level = None, items = None\<rparr>]"
  by code_simp

definition reversed_document :: string where
  "reversed_document =
     ''<blockquote>q</blockquote><ul><li>a</li></ul><p>A paragraph of enough text.</p><h1>T</h1>''"

lemma reversed_document_blocks:
  "parseHtmlToBlocks reversed_document =
     Some [\<lparr>type_blk = ''heading'', content = ''T'', level = Some (Finite 1), items = None\<rparr>,
           \<lparr>type_blk = ''paragraph'', content = ''A paragraph of enough text.'',
              level = None, items = None\<rparr>,
           \<lparr>type_blk = ''unordered-list'', content = ''a'', level = None, items = Some [''a'']\<rparr>,
           \<lparr>type_blk = ''quote'', content = ''q'', level = None, items = None\<rparr>]"
  by code_simp

text \<open>
  C1. For every HTML input the extractor returns its blocks grouped by type: the headings,
  then the paragraphs, then the lists, then the quotes, whatever their order in the document.
  For a heading, a paragraph and a second heading, in this order, both headings come before
  the paragraph.
\<close>

theorem blocks_grouped_by_type:
  "(\<exists>hs ps ls qs.
      parseHtmlToBlocks html = Some (hs @ ps @ ls @ qs) \<and>
      (\<forall>b \<in> set hs. type_blk b = ''heading'') \<and>
      (\<forall>b \<in> set ps. type_blk b = ''paragraph'') \<and>
      (\<forall>b \<in> set ls. type_blk b = ''ordered-list'' \<or> type_blk b = ''unordered-list'') \<and>
      (\<forall>b \<in> set qs. type_blk b = ''quote'')) \<and>
   map type_blk (the (parseHtmlToBlocks interleaved)) = [''heading'', ''heading'', ''paragraph'']"
proof
  define c where "c = replaceAll True (elementPattern ''style'') None
                        (replaceAll True (elementPattern ''script'') None html)"
  obtain hs where hs: "execAll True headingRegex None c = Some hs"
    using execAll_total [OF consuming_patterns(1)] by blast
  obtain ps where ps: "execAll True paragraphRegex None c = Some ps"
    using execAll_total [OF consuming_patterns(2)] by blast
  obtain ls where ls: "execAll True listRegex None c = Some ls"
    using execAll_total [OF consuming_patterns(3)] by blast
  obtain qs where qs: "execAll True blockquoteRegex None c = Some qs"
    using execAll_total [OF consuming_patterns(4)] by blast
  have 1: "parseHtmlToBlocks html =
          Some (concat (map headingBlock hs) @ concat (map paragraphBlock ps) @
                concat (map listBlock ls) @ concat (map quoteBlock qs))"
    using hs ps ls qs by (simp add: parseHtmlToBlocks_def c_def)
  have 2: "\<forall>b \<in> set (concat (map headingBlock hs)). type_blk b = ''heading''"
    using headingBlock_type by auto
  have 3: "\<forall>b \<in> set (concat (map paragraphBlock ps)). type_blk b = ''paragraph''"
    using paragraphBlock_type by auto
  have 4: "\<forall>b \<in> set (concat (map listBlock ls)).
             type_blk b = ''ordered-list'' \<or> type_blk b = ''unordered-list''"
    using listBlock_type by auto
  have 5: "\<forall>b \<in> set (concat (map quoteBlock qs)). type_blk b = ''quote''"
    using quoteBlock_type by auto
  show "\<exists>hs ps ls qs.
      parseHtmlToBlocks html = Some (hs @ ps @ ls @ qs) \<and>
      (\<forall>b \<in> set hs. type_blk b = ''heading'') \<and>
      (\<forall>b \<in> set ps. type_blk b = ''paragraph'') \<and>
      (\<forall>b \<in> set ls. type_blk b = ''ordered-list'' \<or> type_blk b = ''unordered-list'') \<and>
      (\<forall>b \<in> set qs. type_blk b = ''quote'')"
    apply (rule exI [of _ "concat (map headingBlock hs)"])
    apply (rule exI [of _ "concat (map paragraphBlock ps)"])
    apply (rule exI [of _ "concat (map listBlock ls)"])
    apply (rule exI [of _ "concat (map quoteBlock qs)"])
    using 1 2 3 4 5 apply (intro conjI)
        apply assumption+
    done
next
  show "map type_blk (the (parseHtmlToBlocks interleaved)) = [''heading'', ''heading'', ''paragraph'']"
    by (simp add: interleaved_blocks)
qed

theorem blocks_grouped_by_type_witness:
  "parseHtmlToBlocks reversed_document \<noteq> None \<and>
   map type_blk (the (parseHtmlToBlocks reversed_document)) =
     [''heading'', ''paragraph'', ''unordered-list'', ''quote'']"
  using blocks_grouped_by_type [of reversed_document] by (auto simp: reversed_document_blocks)

section \<open>Properties of the question parser\<close>

subsection \<open>Segments and records\<close>

text \<open>The segments that the split detects: the label and the body of each marker.\<close>

fun segments :: "string list \<Rightarrow> (string \<times> string) list" where
  "segments (num # body # ps) = (num, body) # segments ps"
| "segments [num] = []"
| "segments [] = []"

definition detectedSegments :: "string \<Rightarrow> (string \<times> string) list" where
  "detectedSegments input = segments (drop 1 (js_split True splitPattern input))"

text \<open>A segment in which one of the four options extracts as empty.\<close>

definition missesOption :: "string \<Rightarrow> bool" where
  "missesOption body =
     (extractOption body ''A'' ''B'' = [] \<or> extractOption body ''B'' ''C'' = [] \<or>
      extractOption body ''C'' ''D'' = [] \<or> extractOption body ''D'' ''Correct'' = [])"

lemma segmentLoop_segments:
  "segmentLoop ps = List.map_filter (\<lambda>(num, body). parseSegment (parseInt num) body) (segments ps)"
  by (induction ps rule: segmentLoop.induct) (simp_all add: List.map_filter_simps split: option.splits)

lemma length_map_filter_le: "length (List.map_filter f xs) \<le> length xs"
  by (induction xs) (simp_all add: List.map_filter_simps split: option.splits)

lemma length_map_filter_less:
  "x \<in> set xs \<Longrightarrow> f x = None \<Longrightarrow> length (List.map_filter f xs) < length xs"
proof (induction xs)
  case Nil
  then show ?case by simp
next
  case (Cons y ys)
  show ?case
  proof (cases "x = y")
    case True
    with Cons.prems length_map_filter_le [of f ys] show ?thesis
      by (simp add: List.map_filter_simps)
  next
    case False
    with Cons have "length (List.map_filter f ys) < length ys" by simp
    then show ?thesis by (simp add: List.map_filter_simps split: option.splits)
  qed
qed

lemma missesOption_None: "missesOption body \<Longrightarrow> parseSegment n body = None"
  by (auto simp: missesOption_def parseSegment_def Let_def)

lemma parseSegment_options:
  "parseSegment n body = Some q \<Longrightarrow>
     optionA q \<noteq> [] \<and> optionB q \<noteq> [] \<and> optionC q \<noteq> [] \<and> optionD q \<noteq> []"
  by (auto simp: parseSegment_def Let_def split: if_splits)

definition twoSegments :: string where
  "twoSegments =
     ''Question 7: Which city is the capital of India?'' @ [NL] @ ''A. Pune'' @ [NL] @
     ''B. Delhi'' @ [NL] @ ''C. Agra'' @ [NL] @ ''D. Goa'' @ [NL] @
     ''Question 8: Which river is the longest one?'' @ [NL] @ ''A. Ganga'' @ [NL] @
     ''B. Yamuna'' @ [NL] @ ''D. Godavari'' @ [NL] @ ''Correct Answer: A'' @ [NL]"

definition bodyComplete :: string where
  "bodyComplete =
     '' Which city is the capital of India?'' @ [NL] @ ''A. Pune'' @ [NL] @
     ''B. Delhi'' @ [NL] @ ''C. Agra'' @ [NL] @ ''D. Goa'' @ [NL]"

definition bodyWithoutC :: string where
  "bodyWithoutC =
     '' Which river is the longest one?'' @ [NL] @ ''A. Ganga'' @ [NL] @
     ''B. Yamuna'' @ [NL] @ ''D. Godavari'' @ [NL] @ ''Correct Answer: A'' @ [NL]"

lemma twoSegments_detected:
  "detectedSegments twoSegments = [(''7'', bodyComplete), (''8'', bodyWithoutC)]"
  by code_simp

lemma bodyWithoutC_optionC: "extractOption bodyWithoutC ''C'' ''D'' = []"
  by code_simp

lemma bodyComplete_record:
  "parseSegment (Finite 7) bodyComplete =
     Some \<lparr>id_mcq = Finite 7, question = ''Which city is the capital of India?'',
           optionA = ''Pune'', optionB = ''Delhi'', optionC = ''Agra'', optionD = ''Goa'',
           correctAnswer = ''A'', explanation = ''The correct answer is A.''\<rparr>"
  by code_simp

text \<open>
  C2. A segment in which one of the four options extracts as empty gives no record, and every
  record has four options that are not empty; so the records are at most as many as the
  segments detected, and fewer when one segment misses an option.
\<close>

theorem missing_option_drops_segment:
  "(missesOption body \<longrightarrow> parseSegment n body = None) \<and>
   (parseSegment n body = Some q \<longrightarrow>
      optionA q \<noteq> [] \<and> optionB q \<noteq> [] \<and> optionC q \<noteq> [] \<and> optionD q \<noteq> []) \<and>
   length (parseMCQResponse input) \<le> length (detectedSegments input) \<and>
   ((\<exists>seg \<in> set (detectedSegments input). missesOption (snd seg)) \<longrightarrow>
      length (parseMCQResponse input) < length (detectedSegments input))"
proof (intro conjI impI)
  assume "missesOption body"
  then show "parseSegment n body = None" by (rule missesOption_None)
next
  assume "parseSegment n body = Some q"
  from parseSegment_options [OF this]
  show "optionA q \<noteq> []" "optionB q \<noteq> []" "optionC q \<noteq> []" "optionD q \<noteq> []" by simp_all
next
  show "length (parseMCQResponse input) \<le> length (detectedSegments input)"
    by (simp add: parseMCQResponse_def detectedSegments_def segmentLoop_segments
        length_map_filter_le)
next
  assume "\<exists>seg \<in> set (detectedSegments input). missesOption (snd seg)"
  then obtain num body where seg: "(num, body) \<in> set (detectedSegments input)"
    and m: "missesOption body" by auto
  have "(\<lambda>(num, body). parseSegment (parseInt num) body) (num, body) = None"
    using missesOption_None [OF m] by simp
  from length_map_filter_less
         [of "(num, body)" _ "\<lambda>(num, body). parseSegment (parseInt num) body", OF seg this]
  show "length (parseMCQResponse input) < length (detectedSegments input)"
    by (simp add: parseMCQResponse_def detectedSegments_def segmentLoop_segments)
qed

theorem missing_option_drops_segment_witness:
  "missesOption bodyWithoutC \<and> parseSegment (Finite 8) bodyWithoutC = None \<and>
   length (detectedSegments twoSegments) = 2 \<and>
   length (parseMCQResponse twoSegments) < 2 \<and>
   optionC (the (parseSegment (Finite 7) bodyComplete)) \<noteq> []"
proof -
  have m: "missesOption bodyWithoutC"
    by (simp add: missesOption_def bodyWithoutC_optionC)
  have s: "\<exists>seg \<in> set (detectedSegments twoSegments). missesOption (snd seg)"
    using m by (simp add: twoSegments_detected)
  from missing_option_drops_segment
         [of bodyWithoutC "Finite 8" "the (parseSegment (Finite 7) bodyComplete)" twoSegments] m s
  have 1: "parseSegment (Finite 8) bodyWithoutC = None"
    and 2: "length (parseMCQResponse twoSegments) < length (detectedSegments twoSegments)"
    by simp_all
  from missing_option_drops_segment
         [of bodyComplete "Finite 7" "the (parseSegment (Finite 7) bodyComplete)" twoSegments]
  have 3: "optionC (the (parseSegment (Finite 7) bodyComplete)) \<noteq> []"
    by (simp add: bodyComplete_record)
  from m 1 2 3 show ?thesis by (simp add: twoSegments_detected)
qed

subsection \<open>The correct answer and the explanation\<close>

lemma js_match_run:
  "js_match i r str = Some e \<Longrightarrow> \<exists>pv st. run i [Re r] (at pv st) = Some e"
proof -
  assume "js_match i r str = Some e"
  then obtain k st where "search i r None str = Some (k, st, e)"
    by (auto simp: js_match_def)
  from search_Some [OF this] show ?thesis by blast
qed

lemma canon_ABCD:
  "canon c \<in> {CHR ''A'', CHR ''B'', CHR ''C'', CHR ''D''} \<longleftrightarrow> cls_mem True (map AChr ''ABCD'') c"
  by (simp add: cls_mem_def canon_def lowerLetters_def upperLetters_def)

lemma correctPattern_capture:
  assumes "js_match True correctPattern str = Some e"
  shows "\<exists>c. capture e 1 = [c] \<and> cls_mem True (map AChr ''ABCD'') c"
proof -
  from js_match_run [OF assms] obtain pv st
    where "run True [Re correctPattern] (at pv st) = Some e" by blast
  then have "run True ([Re (Lit ''Correct''), Re (Star Space), Re (Lit ''Answer''), Re (Star Space),
                        Re (Star (Cls [AChr CHR '':'', ASpace]))] @
                       [Re (Group 1 (OneOf ''ABCD''))]) (at pv st) = Some e"
    by (simp add: correctPattern_def)
  from run_append_reaches [OF refl this]
  obtain s' where "run True [Re (Group 1 (OneOf ''ABCD''))] s' = Some e"
    unfolding reaches_def by blast
  then obtain c cs where c: "rest s' = c # cs" "cls_mem True (map AChr ''ABCD'') c"
    and e: "e = (step c cs s')\<lparr>caps := (caps (step c cs s'))(1 \<mapsto> (c # cs, cs))\<rparr>"
    by (auto simp: OneOf_def step_def split: list.splits if_splits)
  from e have "capture e 1 = [c]" by (simp add: capture_def slice_def)
  with c(2) show ?thesis by blast
qed

lemma correctAnswerOf_letter:
  "correctAnswerOf str \<in> {''A'', ''B'', ''C'', ''D''}"
proof (cases "js_match True correctPattern str")
  case None
  then show ?thesis by (simp add: correctAnswerOf_def)
next
  case (Some e)
  from correctPattern_capture [OF Some] obtain c
    where "capture e 1 = [c]" "cls_mem True (map AChr ''ABCD'') c" by blast
  then show ?thesis
    using Some canon_ABCD [of c] by (auto simp: correctAnswerOf_def toUpperCase_def)
qed

lemma parseSegment_correctAnswer:
  "parseSegment n body = Some q \<Longrightarrow> correctAnswer q = correctAnswerOf body"
  by (auto simp: parseSegment_def Let_def split: if_splits)

lemma parseSegment_explanation:
  "parseSegment n body = Some q \<Longrightarrow> explanation q = explanationOf body"
  by (auto simp: parseSegment_def Let_def split: if_splits)

lemma parseMCQResponse_member:
  "q \<in> set (parseMCQResponse input) \<Longrightarrow> \<exists>n body. parseSegment n body = Some q"
proof -
  have "q \<in> set (segmentLoop ps) \<Longrightarrow> \<exists>n body. parseSegment n body = Some q" for ps
    by (induction ps rule: segmentLoop.induct) (auto split: option.splits)
  then show "q \<in> set (parseMCQResponse input) \<Longrightarrow> \<exists>n body. parseSegment n body = Some q"
    by (simp add: parseMCQResponse_def)
qed

definition lowerCaseAnswer :: string where
  "lowerCaseAnswer =
     ''Question 3: Which city is the capital of India?'' @ [NL] @ ''A. Pune'' @ [NL] @
     ''B. Delhi'' @ [NL] @ ''C. Agra'' @ [NL] @ ''D. Goa'' @ [NL] @ ''correct answer: b''"

lemma lowerCaseAnswer_records:
  "parseMCQResponse lowerCaseAnswer =
     [\<lparr>id_mcq = Finite 3, question = ''Which city is the capital of India?'',
       optionA = ''Pune'', optionB = ''Delhi'', optionC = ''Agra'', optionD = ''Goa'',
       correctAnswer = ''B'', explanation = ''The correct answer is B.''\<rparr>]"
  by code_simp

text \<open>
  C10. The \<open>correctAnswer\<close> of every record that the parser returns is one of the upper case
  letters A, B, C and D, also when the segment writes the letter in lower case.
\<close>

theorem correctAnswer_upper_case:
  "q \<in> set (parseMCQResponse input) \<Longrightarrow> correctAnswer q \<in> {''A'', ''B'', ''C'', ''D''}"
proof -
  assume "q \<in> set (parseMCQResponse input)"
  from parseMCQResponse_member [OF this] obtain n body where "parseSegment n body = Some q"
    by blast
  from parseSegment_correctAnswer [OF this] show ?thesis
    using correctAnswerOf_letter [of body] by simp
qed

theorem correctAnswer_upper_case_witness:
  "hd (parseMCQResponse lowerCaseAnswer) \<in> set (parseMCQResponse lowerCaseAnswer) \<and>
   correctAnswer (hd (parseMCQResponse lowerCaseAnswer)) = ''B''"
proof -
  have m: "hd (parseMCQResponse lowerCaseAnswer) \<in> set (parseMCQResponse lowerCaseAnswer)"
    by (simp add: lowerCaseAnswer_records)
  from correctAnswer_upper_case [OF m] m show ?thesis
    by (simp add: lowerCaseAnswer_records)
qed

lemma parseSegment_Some_iff:
  "parseSegment n body \<noteq> None \<longleftrightarrow>
     50 \<le> length body \<and> 10 \<le> length (questionOf body) \<and> \<not> missesOption body"
  by (auto simp: parseSegment_def missesOption_def Let_def)

lemma bodyComplete_no_markers:
  "js_match True correctPattern bodyComplete = None"
  "js_match True explanationPattern bodyComplete = None"
  by code_simp+

text \<open>
  C4. In a record, the \<open>correctAnswer\<close> is \<open>A\<close> when the segment has no match of the correct
  answer pattern, and the explanation is \<open>The correct answer is\<close> with the letter of the
  record when it has no match of the explanation pattern. Whether a segment gives a record
  depends on its length, its stem and its four options only, not on these two patterns.
\<close>

theorem missing_answer_and_explanation_defaulted:
  "(parseSegment n body = Some q \<longrightarrow>
      (js_match True correctPattern body = None \<longrightarrow> correctAnswer q = ''A'') \<and>
      (js_match True explanationPattern body = None \<longrightarrow>
         explanation q = ''The correct answer is '' @ correctAnswer q @ ''.'')) \<and>
   (parseSegment n body \<noteq> None \<longleftrightarrow>
      50 \<le> length body \<and> 10 \<le> length (questionOf body) \<and> \<not> missesOption body)"
proof (intro conjI impI)
  assume q: "parseSegment n body = Some q" and "js_match True correctPattern body = None"
  then show "correctAnswer q = ''A''"
    using parseSegment_correctAnswer [OF q] by (simp add: correctAnswerOf_def)
next
  assume q: "parseSegment n body = Some q" and "js_match True explanationPattern body = None"
  then show "explanation q = ''The correct answer is '' @ correctAnswer q @ ''.''"
    using parseSegment_explanation [OF q] parseSegment_correctAnswer [OF q]
    by (simp add: explanationOf_def)
next
  show "parseSegment n body \<noteq> None \<longleftrightarrow>
      50 \<le> length body \<and> 10 \<le> length (questionOf body) \<and> \<not> missesOption body"
    by (rule parseSegment_Some_iff)
qed

theorem missing_answer_and_explanation_defaulted_witness:
  "parseSegment (Finite 7) bodyComplete \<noteq> None \<and>
   js_match True correctPattern bodyComplete = None \<and>
   js_match True explanationPattern bodyComplete = None \<and>
   correctAnswer (the (parseSegment (Finite 7) bodyComplete)) = ''A'' \<and>
   explanation (the (parseSegment (Finite 7) bodyComplete)) = ''The correct answer is A.''"
proof -
  have q: "parseSegment (Finite 7) bodyComplete = Some (the (parseSegment (Finite 7) bodyComplete))"
    by (simp add: bodyComplete_record)
  note t = missing_answer_and_explanation_defaulted
             [of "Finite 7" bodyComplete "the (parseSegment (Finite 7) bodyComplete)"]
  from t q bodyComplete_no_markers(1)
  have a: "correctAnswer (the (parseSegment (Finite 7) bodyComplete)) = ''A''" by blast
  from t q bodyComplete_no_markers(2)
  have "explanation (the (parseSegment (Finite 7) bodyComplete)) =
          ''The correct answer is '' @ correctAnswer (the (parseSegment (Finite 7) bodyComplete)) @ ''.''"
    by blast
  with a have e: "explanation (the (parseSegment (Finite 7) bodyComplete)) = ''The correct answer is A.''"
    by simp
  have "parseSegment (Finite 7) bodyComplete \<noteq> None" by (simp add: bodyComplete_record)
  with a e bodyComplete_no_markers show ?thesis by simp
qed

subsection \<open>Characters\<close>

lemma canon_cases: "canon c = c \<or> (c \<in> set lowerLetters \<and> canon c \<in> set upperLetters)"
proof (cases "map_of (zip lowerLetters upperLetters) c")
  case None
  then show ?thesis by (simp add: canon_def)
next
  case (Some u)
  then have "(c, u) \<in> set (zip lowerLetters upperLetters)"
    by (rule map_of_SomeD)
  then have "c \<in> set lowerLetters" "u \<in> set upperLetters"
    by (auto dest: set_zip_leftD set_zip_rightD)
  then show ?thesis using Some by (simp add: canon_def)
qed

lemma canon_fixed:
  assumes "p \<notin> set lowerLetters" and "p \<notin> set upperLetters"
  shows "canon c = canon p \<longleftrightarrow> c = p"
proof
  from assms(1) canon_cases [of p] have 1: "canon p = p" by blast
  assume "canon c = canon p"
  with 1 have "canon c = p" by simp
  with canon_cases [of c] assms(2) show "c = p" by metis
qed simp

lemma NL_no_letter: "NL \<notin> set lowerLetters" "NL \<notin> set upperLetters"
  by (simp_all add: NL_def lowerLetters_def upperLetters_def)

lemma dot_no_letter: "CHR ''.'' \<notin> set lowerLetters" "CHR ''.'' \<notin> set upperLetters"
  by (simp_all add: lowerLetters_def upperLetters_def)

lemma canon_NL [simp]: "canon c = canon NL \<longleftrightarrow> c = NL"
  by (rule canon_fixed [OF NL_no_letter])

lemma canon_dot [simp]: "canon c = canon CHR ''.'' \<longleftrightarrow> c = CHR ''.''"
  by (rule canon_fixed [OF dot_no_letter])

lemma isSpace_no_letter: "isSpace c \<Longrightarrow> c \<notin> set lowerLetters \<and> c \<notin> set upperLetters"
  by (auto simp: isSpace_def lowerLetters_def upperLetters_def)

lemma isSpace_canon: "isSpace c \<Longrightarrow> canon c = c"
  using canon_cases [of c] isSpace_no_letter [of c] by blast

lemma canon_not_space:
  assumes "canon c = canon p" and "\<not> isSpace p"
  shows "\<not> isSpace c"
proof
  assume c: "isSpace c"
  then have "canon p = c" using isSpace_canon [of c] assms(1) by simp
  with canon_cases [of p] isSpace_no_letter [OF c] have "p = c" by metis
  with c assms(2) show False by simp
qed

subsection \<open>Literals and line starts in a text\<close>

text \<open>\<open>w\<close> stands at the start of \<open>v\<close>, letters compared without their case.\<close>

fun prefixCI :: "string \<Rightarrow> string \<Rightarrow> bool" where
  "prefixCI [] v = True"
| "prefixCI (p # ps) [] = False"
| "prefixCI (p # ps) (c # cs) = (canon c = canon p \<and> prefixCI ps cs)"

lemma prefixCI_iff: "prefixCI w v \<longleftrightarrow> (\<exists>x y. v = x @ y \<and> lit_match True w x)"
proof (induction w v rule: prefixCI.induct)
  case (1 v)
  show ?case by simp
next
  case (2 p ps)
  show ?case by (simp add: lit_match_Cons)
next
  case (3 p ps c cs)
  show ?case
  proof
    assume "prefixCI (p # ps) (c # cs)"
    then have c: "canon c = canon p" and "prefixCI ps cs" by simp_all
    with 3 obtain x y where "cs = x @ y" "lit_match True ps x" by blast
    with c have "c # cs = (c # x) @ y \<and> lit_match True (p # ps) (c # x)"
      by (simp add: lit_match_Cons)
    then show "\<exists>x y. c # cs = x @ y \<and> lit_match True (p # ps) x" by blast
  next
    assume "\<exists>x y. c # cs = x @ y \<and> lit_match True (p # ps) x"
    then obtain x y where x: "c # cs = x @ y" "lit_match True (p # ps) x" by blast
    then obtain x' where x': "x = c # x'" "canon c = canon p" "lit_match True ps x'"
      by (auto simp: lit_match_Cons)
    with x have "cs = x' @ y" by simp
    with x' 3 show "prefixCI (p # ps) (c # cs)" by auto
  qed
qed

lemma eat_prefixCI:
  "eat True w s = (if prefixCI w (rest s)
                   then Some (moved (take (length w) (rest s)) (drop (length w) (rest s)) s)
                   else None)"
proof (cases "eat True w s")
  case None
  then show ?thesis by (auto simp: eat_None_iff prefixCI_iff)
next
  case (Some e)
  then obtain x y where x: "rest s = x @ y" "lit_match True w x" "e = moved x y s"
    by (auto simp: eat_iff)
  then have "prefixCI w (rest s)" by (auto simp: prefixCI_iff)
  moreover have "take (length w) (rest s) = x" "drop (length w) (rest s) = y"
    using x lit_match_length [OF x(2)] by simp_all
  ultimately show ?thesis using Some x(3) by simp
qed

text \<open>
  A line break followed by optional white space and \<open>w\<close>: what the lookahead
  \<open>(?=\n\s*w)\<close> asks of the text \<open>v\<close> at the current position.
\<close>

definition boundary :: "string \<Rightarrow> string \<Rightarrow> bool" where
  "boundary w v = (case v of [] \<Rightarrow> False | c # cs \<Rightarrow> c = NL \<and> prefixCI w (dropWhile isSpace cs))"

definition boundaryPattern :: "string \<Rightarrow> regex" where
  "boundaryPattern w = Cat [Lit [NL], Star Space, Lit w]"

lemma dropWhile_space_stop: "v = [] \<or> \<not> isSpace (hd v) \<Longrightarrow> dropWhile isSpace v = v"
  by (cases v) auto

lemma dropWhile_space_append:
  "\<forall>c \<in> set ws. isSpace c \<Longrightarrow> v = [] \<or> \<not> isSpace (hd v) \<Longrightarrow> dropWhile isSpace (ws @ v) = v"
  by (induction ws) (simp_all add: dropWhile_space_stop)

lemma charOf_Space: "charOf i Space = Some isSpace"
  by (auto simp: Space_def cls_mem_def)

lemma charOf_AnyChar: "charOf i AnyChar = Some (\<lambda>c. True)"
  by (auto simp: AnyChar_def cls_mem_def)

lemma prefixCI_hd:
  "prefixCI w v \<Longrightarrow> w \<noteq> [] \<Longrightarrow> v \<noteq> [] \<and> canon (hd v) = canon (hd w)"
  by (cases w; cases v) auto

text \<open>The lookahead for a line start succeeds exactly at a boundary, and captures nothing.\<close>

lemma run_boundary_Some:
  assumes "w \<noteq> []" and "\<not> isSpace (hd w)" and "run True [Re (boundaryPattern w)] s = Some e"
  shows "boundary w (rest s)"
proof -
  from assms(3) have "run True [Re (Lit [NL]), Re (Star Space), Re (Lit w)] s = Some e"
    by (simp add: boundaryPattern_def)
  then obtain s1 where s1: "eat True [NL] s = Some s1"
    and r1: "run True [Re (Star Space), Re (Lit w)] s1 = Some e"
    by (auto split: option.splits)
  from s1 obtain cs where cs: "rest s = NL # cs" and s1': "s1 = step NL cs s"
    by (cases "rest s") (auto split: if_splits)
  from run_Star_char_Some [OF charOf_Space _ r1, of cs] s1'
  obtain ws v where ws: "cs = ws @ v" "\<forall>c \<in> set ws. isSpace c"
    and r2: "run True [Re (Lit w)] (moved ws v s1) = Some e"
    by (auto simp: step_def)
  from r2 have p: "prefixCI w v"
    by (auto simp: eat_prefixCI split: option.splits if_splits)
  from prefixCI_hd [OF p assms(1)] canon_not_space [OF _ assms(2)]
  have nv: "v \<noteq> [] \<and> \<not> isSpace (hd v)" by blast
  have "dropWhile isSpace (ws @ v) = v"
    by (rule dropWhile_space_append) (use ws(2) nv in simp_all)
  with ws(1) have "dropWhile isSpace cs = v" by simp
  with p cs show ?thesis by (simp add: boundary_def)
qed

lemma run_boundary_ok:
  assumes "w \<noteq> []" and "\<not> isSpace (hd w)" and "boundary w (rest s)"
  shows "\<exists>e. run True [Re (boundaryPattern w)] s = Some e \<and> caps e = caps s"
proof -
  from assms(3) obtain cs where cs: "rest s = NL # cs" and p: "prefixCI w (dropWhile isSpace cs)"
    by (auto simp: boundary_def split: list.splits)
  define ws where "ws = takeWhile isSpace cs"
  define v where "v = dropWhile isSpace cs"
  have split: "cs = ws @ v" and sp: "\<forall>c \<in> set ws. isSpace c"
    by (auto simp: ws_def v_def dest: set_takeWhileD)
  define s1 where "s1 = moved [NL] cs s"
  define e where "e = moved (take (length w) v) (drop (length w) v) (moved ws v s1)"
  have k: "run True [Re (Lit w)] (moved ws v s1) = Some e"
    using p by (simp add: eat_prefixCI v_def e_def)
  have "run True [Re (Star Space), Re (Lit w)] s1 = Some e"
  proof (rule run_Star_char_last [OF charOf_Space _ sp k])
    show "rest s1 = ws @ v" by (simp add: s1_def split)
  next
    fix w1 v1
    assume "v = w1 @ v1" "w1 \<noteq> []" "\<forall>c \<in> set w1. isSpace c"
    then have "isSpace (hd v)" by (cases w1) auto
    moreover from prefixCI_hd [OF _ assms(1), of v] p canon_not_space [OF _ assms(2)]
    have "\<not> isSpace (hd v)" by (auto simp: v_def)
    ultimately show "run True [Re (Lit w)] (moved (ws @ w1) v1 s1) = None" by simp
  qed
  then have "run True [Re (boundaryPattern w)] s = Some e"
    using cs by (simp add: boundaryPattern_def s1_def step_moved)
  moreover have "caps e = caps s" by (simp add: e_def s1_def)
  ultimately show ?thesis by blast
qed

subsection \<open>A lazy group before a lookahead\<close>

lemma slice_append [simp]: "slice (u @ v, v) = u"
  by (simp add: slice_def)

text \<open>
  The shape \<open>(r+?)(?=B)\<close> for a one character pattern \<open>r\<close>: the group ends at the first
  place, after at least one character, where the lookahead holds.
\<close>

lemma run_close_ahead:
  assumes ok: "\<And>s. bnd (rest s) \<Longrightarrow> \<exists>e. run i [Re B] s = Some e \<and> caps e = caps s"
    and sound: "\<And>s e. run i [Re B] s = Some e \<Longrightarrow> bnd (rest s)"
  shows "run i [Close n st, Re (Ahead B)] s =
           (if bnd (rest s) then Some (s\<lparr>caps := (caps s)(n \<mapsto> (st, rest s))\<rparr>) else None)"
proof (cases "bnd (rest s)")
  case True
  define s' where "s' = s\<lparr>caps := (caps s)(n \<mapsto> (st, rest s))\<rparr>"
  have "bnd (rest s')" using True by (simp add: s'_def)
  from ok [OF this] obtain e where "run i [Re B] s' = Some e" "caps e = caps s'" by blast
  then have "run i [Re (Ahead B)] s' = Some s'" by simp
  then show ?thesis using True by (simp add: s'_def)
next
  case False
  define s' where "s' = s\<lparr>caps := (caps s)(n \<mapsto> (st, rest s))\<rparr>"
  have "run i [Re B] s' = None"
  proof (cases "run i [Re B] s'")
    case (Some e)
    from sound [OF this] False show ?thesis by (simp add: s'_def)
  qed simp
  then have "run i [Re (Ahead B)] s' = None" by simp
  then show ?thesis using False by (simp add: s'_def)
qed

lemma run_lazy_group_first:
  assumes ok: "\<And>s. bnd (rest s) \<Longrightarrow> \<exists>e. run i [Re B] s = Some e \<and> caps e = caps s"
    and sound: "\<And>s e. run i [Re B] s = Some e \<Longrightarrow> bnd (rest s)"
    and r: "charOf i r = Some P"
    and s: "rest s = u @ v" "u \<noteq> []" "\<forall>c \<in> set u. P c" "bnd v"
    and first: "\<And>u1 u2. u = u1 @ u2 \<Longrightarrow> u1 \<noteq> [] \<Longrightarrow> u2 \<noteq> [] \<Longrightarrow> \<not> bnd (u2 @ v)"
  shows "run i [Re (Group n (LazyPlus r)), Re (Ahead B)] s =
           Some ((moved u v s)\<lparr>caps := (caps s)(n \<mapsto> (rest s, v))\<rparr>)"
proof -
  from s(2) obtain c u' where u: "u = c # u'" by (cases u) auto
  define k where "k = [Close n (rest s), Re (Ahead B)]"
  define s1 where "s1 = moved [c] (u' @ v) s"
  have kk: "run i k t = (if bnd (rest t) then Some (t\<lparr>caps := (caps t)(n \<mapsto> (rest s, rest t))\<rparr>)
                         else None)" for t
    unfolding k_def by (rule run_close_ahead [where bnd = bnd, OF ok sound])
  have "run i (Re (LazyStar r) # k) s1 =
          Some ((moved u' v s1)\<lparr>caps := (caps (moved u' v s1))(n \<mapsto> (rest s, v))\<rparr>)"
  proof (rule run_LazyStar_char_first [OF r])
    show "rest s1 = u' @ v" by (simp add: s1_def)
    show "\<forall>c \<in> set u'. P c" using s(3) u by simp
    show "run i k (moved u' v s1) =
            Some ((moved u' v s1)\<lparr>caps := (caps (moved u' v s1))(n \<mapsto> (rest s, v))\<rparr>)"
      using s(4) by (simp add: kk)
  next
    fix w1 w2
    assume w: "u' = w1 @ w2" "w2 \<noteq> []"
    have "\<not> bnd (w2 @ v)"
      by (rule first [of "c # w1" w2]) (use w u in simp_all)
    then show "run i k (moved w1 (w2 @ v) s1) = None" by (simp add: kk)
  qed
  moreover have "run i [Re (Group n (LazyPlus r)), Re (Ahead B)] s = run i (Re (LazyStar r) # k) s1"
    using s(1,3) u by (simp add: LazyPlus_def run_charOf [OF r] k_def s1_def)
  ultimately show ?thesis by (simp add: s1_def u)
qed

lemma run_lazy_group_none:
  assumes sound: "\<And>s e. run i [Re B] s = Some e \<Longrightarrow> bnd (rest s)"
    and r: "charOf i r = Some P"
    and none: "\<And>u v. rest s = u @ v \<Longrightarrow> u \<noteq> [] \<Longrightarrow> \<forall>c \<in> set u. P c \<Longrightarrow> \<not> bnd v"
  shows "run i [Re (Group n (LazyPlus r)), Re (Ahead B)] s = None"
proof (cases "rest s")
  case Nil
  then show ?thesis by (simp add: LazyPlus_def run_charOf [OF r])
next
  case (Cons c cs)
  define k where "k = [Close n (rest s), Re (Ahead B)]"
  have kk: "\<not> bnd (rest t) \<Longrightarrow> run i k t = None" for t
  proof (cases "run i k t")
    case (Some e)
    assume nb: "\<not> bnd (rest t)"
    from Some obtain e' where "run i [Re B] (t\<lparr>caps := (caps t)(n \<mapsto> (rest s, rest t))\<rparr>) = Some e'"
      by (auto simp: k_def split: option.splits)
    from sound [OF this] nb show ?thesis by simp
  qed simp
  show ?thesis
  proof (cases "P c")
    case False
    then show ?thesis using Cons by (simp add: LazyPlus_def run_charOf [OF r])
  next
    case True
    have "run i (Re (LazyStar r) # k) (moved [c] cs s) = None"
    proof (rule run_LazyStar_char_None [OF r])
      show "rest (moved [c] cs s) = cs" by simp
    next
      fix w v
      assume w: "cs = w @ v" "\<forall>c \<in> set w. P c"
      have "\<not> bnd v"
        by (rule none [of "c # w" v]) (use w Cons True in simp_all)
      then show "run i k (moved w v (moved [c] cs s)) = None" by (simp add: kk)
    qed
    then show ?thesis using Cons True by (simp add: LazyPlus_def run_charOf [OF r] k_def)
  qed
qed

text \<open>A pattern that begins with \<open>^\<close> matches at index 0 or nowhere.\<close>

lemma search_Bol_later: "search i (Cat (Bol # rs)) (Some c) str = None"
  by (induction str arbitrary: c) (simp_all add: at_def)

lemma search_Bol:
  "search i (Cat (Bol # rs)) None str =
     (case run i (map Re rs) (at None str) of
        Some e \<Rightarrow> Some ([], str, e)
      | None \<Rightarrow> None)"
  by (cases str) (simp_all add: at_def search_Bol_later split: option.splits)

subsection \<open>The first boundary of a text\<close>

text \<open>
  The first split of a text into \<open>u\<close> and \<open>v\<close> with \<open>u\<close> not empty and a boundary for \<open>w\<close> at
  the start of \<open>v\<close>.
\<close>

fun firstBoundary :: "string \<Rightarrow> string \<Rightarrow> (string \<times> string) option" where
  "firstBoundary w [] = None"
| "firstBoundary w (c # cs) =
     (if boundary w cs then Some ([c], cs)
      else map_option (\<lambda>(u, v). (c # u, v)) (firstBoundary w cs))"

lemma firstBoundary_Some:
  "firstBoundary w str = Some (u, v) \<Longrightarrow>
     str = u @ v \<and> u \<noteq> [] \<and> boundary w v \<and>
     (\<forall>u1 u2. u = u1 @ u2 \<and> u1 \<noteq> [] \<and> u2 \<noteq> [] \<longrightarrow> \<not> boundary w (u2 @ v))"
proof (induction str arbitrary: u)
  case Nil
  then show ?case by simp
next
  case (Cons c cs)
  show ?case
  proof (cases "boundary w cs")
    case True
    with Cons.prems have "u = [c]" "v = cs" by simp_all
    with True show ?thesis by (auto simp: Cons_eq_append_conv)
  next
    case False
    with Cons.prems obtain u' where u': "u = c # u'" "firstBoundary w cs = Some (u', v)"
      by auto
    from Cons.IH [OF u'(2)] have ih: "cs = u' @ v" "u' \<noteq> []" "boundary w v"
      "\<And>u1 u2. u' = u1 @ u2 \<Longrightarrow> u1 \<noteq> [] \<Longrightarrow> u2 \<noteq> [] \<Longrightarrow> \<not> boundary w (u2 @ v)"
      by auto
    have "\<not> boundary w (u2 @ v)" if "u = u1 @ u2" "u1 \<noteq> []" "u2 \<noteq> []" for u1 u2
    proof (cases u1)
      case Nil
      with that show ?thesis by simp
    next
      case c1: (Cons c1 u1')
      with that u'(1) have e: "u' = u1' @ u2" by simp
      show ?thesis
      proof (cases "u1' = []")
        case True
        with e ih(1) False show ?thesis by simp
      next
        case False
        from ih(4) [OF e False that(3)] show ?thesis .
      qed
    qed
    with ih u'(1) show ?thesis by simp
  qed
qed

lemma firstBoundary_None:
  "firstBoundary w str = None \<Longrightarrow> str = u @ v \<Longrightarrow> u \<noteq> [] \<Longrightarrow> \<not> boundary w v"
proof (induction str arbitrary: u)
  case Nil
  then show ?case by simp
next
  case (Cons c cs)
  from Cons.prems(1) have nb: "\<not> boundary w cs" and n: "firstBoundary w cs = None"
    by (auto split: if_splits)
  from Cons.prems(2,3) obtain u' where u': "u = c # u'" "cs = u' @ v"
    by (cases u) auto
  show ?case
  proof (cases "u' = []")
    case True
    with u' nb show ?thesis by simp
  next
    case False
    from Cons.IH [OF n u'(2) False] show ?thesis .
  qed
qed

text \<open>The group of \<open>(r+?)(?=\n\s*w)\<close> from the current position, for \<open>[\s\S]\<close> as \<open>r\<close>.\<close>

lemma run_lazy_boundary:
  assumes "w \<noteq> []" and "\<not> isSpace (hd w)"
  shows "run True [Re (Group n (LazyPlus AnyChar)), Re (Ahead (boundaryPattern w))] s =
           (case firstBoundary w (rest s) of
              None \<Rightarrow> None
            | Some (u, v) \<Rightarrow> Some ((moved u v s)\<lparr>caps := (caps s)(n \<mapsto> (rest s, v))\<rparr>))"
proof (cases "firstBoundary w (rest s)")
  case None
  have "run True [Re (Group n (LazyPlus AnyChar)), Re (Ahead (boundaryPattern w))] s = None"
  proof (rule run_lazy_group_none [where bnd = "boundary w", OF _ charOf_AnyChar])
    fix t e
    assume "run True [Re (boundaryPattern w)] t = Some e"
    from run_boundary_Some [OF assms this] show "boundary w (rest t)" .
  next
    fix u v
    assume "rest s = u @ v" "u \<noteq> []"
    from firstBoundary_None [OF None this] show "\<not> boundary w v" .
  qed
  with None show ?thesis by simp
next
  case (Some p)
  then obtain u v where p: "firstBoundary w (rest s) = Some (u, v)" by (cases p) auto
  from firstBoundary_Some [OF p] have f: "rest s = u @ v" "u \<noteq> []" "boundary w v"
    "\<And>u1 u2. u = u1 @ u2 \<Longrightarrow> u1 \<noteq> [] \<Longrightarrow> u2 \<noteq> [] \<Longrightarrow> \<not> boundary w (u2 @ v)"
    by auto
  have "run True [Re (Group n (LazyPlus AnyChar)), Re (Ahead (boundaryPattern w))] s =
          Some ((moved u v s)\<lparr>caps := (caps s)(n \<mapsto> (rest s, v))\<rparr>)"
  proof (rule run_lazy_group_first [where bnd = "boundary w" and P = "\<lambda>c. True",
          OF _ _ charOf_AnyChar f(1,2) _ f(3)])
    fix t :: mstate
    assume "boundary w (rest t)"
    from run_boundary_ok [OF assms this]
    show "\<exists>e. run True [Re (boundaryPattern w)] t = Some e \<and> caps e = caps t" .
  next
    fix t e
    assume "run True [Re (boundaryPattern w)] t = Some e"
    from run_boundary_Some [OF assms this] show "boundary w (rest t)" .
  next
    show "\<forall>c \<in> set u. True" by simp
  next
    fix u1 u2
    assume "u = u1 @ u2" "u1 \<noteq> []" "u2 \<noteq> []"
    from f(4) [OF this] show "\<not> boundary w (u2 @ v)" .
  qed
  with p show ?thesis by simp
qed

subsection \<open>The stem\<close>

lemma rest_at [simp]: "rest (at pv str) = str"
  by (simp add: at_def)

lemma prev_at [simp]: "prev (at pv str) = pv"
  by (simp add: at_def)

lemma caps_at [simp]: "caps (at pv str) = Map.empty"
  by (simp add: at_def)

lemma questionOf_firstBoundary:
  "questionOf body = (case firstBoundary ''A.'' body of None \<Rightarrow> [] | Some (u, v) \<Rightarrow> trim u)"
proof -
  have q: "questionPattern =
             Cat [Bol, Group 1 (LazyPlus AnyChar), Ahead (boundaryPattern ''A.'')]"
    by (simp add: questionPattern_def boundaryPattern_def)
  have "run True [Re (Group 1 (LazyPlus AnyChar)), Re (Ahead (boundaryPattern ''A.''))]
             (at None body) =
           (case firstBoundary ''A.'' (rest (at None body)) of
              None \<Rightarrow> None
            | Some (u, v) \<Rightarrow>
                Some ((moved u v (at None body))\<lparr>caps := (caps (at None body))
                        (1 \<mapsto> (rest (at None body), v))\<rparr>))"
    by (rule run_lazy_boundary) (simp_all add: isSpace_def)
  then have r: "run True (map Re [Group 1 (LazyPlus AnyChar), Ahead (boundaryPattern ''A.'')])
             (at None body) =
           (case firstBoundary ''A.'' body of
              None \<Rightarrow> None
            | Some (u, v) \<Rightarrow> Some ((moved u v (at None body))\<lparr>caps := [1 \<mapsto> (body, v)]\<rparr>))"
    by (simp only: rest_at caps_at list.map)
  show ?thesis
  proof (cases "firstBoundary ''A.'' body")
    case None
    with r show ?thesis
      by (simp only: questionOf_def js_match_def q search_Bol option.case option.map)
  next
    case (Some p)
    then obtain u v where p: "firstBoundary ''A.'' body = Some (u, v)" by (cases p) auto
    from firstBoundary_Some [OF p] have b: "body = u @ v" by simp
    have "js_match True questionPattern body =
            Some ((moved u v (at None body))\<lparr>caps := [1 \<mapsto> (body, v)]\<rparr>)"
      using r p by (simp only: js_match_def q search_Bol option.case option.map prod.case)
    then have "questionOf body = trim (slice (body, v))"
      by (simp add: questionOf_def capture_def)
    with b p show ?thesis by simp
  qed
qed

lemma parseSegment_short_stem: "length (questionOf body) < 10 \<Longrightarrow> parseSegment n body = None"
  by (simp add: parseSegment_def Let_def)

text \<open>
  The stem as the specification words it: the text before the first line that begins, after
  optional white space, with \<open>A.\<close> in either case; \<open>None\<close> when there is no such line.
\<close>

definition lineMatchesA :: "string \<Rightarrow> bool" where
  "lineMatchesA line = prefixCI ''A.'' (dropWhile isSpace line)"

fun linesBefore :: "string list \<Rightarrow> string list option" where
  "linesBefore [] = None"
| "linesBefore (l # ls) =
     (if lineMatchesA l then Some [] else map_option (\<lambda>bs. l # bs) (linesBefore ls))"

definition spec_stem :: "string \<Rightarrow> string option" where
  "spec_stem body = map_option (join [NL]) (linesBefore (splitLines body))"

definition earlyLine :: string where
  "earlyLine =
     ''A. an early line here'' @ [NL] @ ''A. 1'' @ [NL] @ ''B. 2'' @ [NL] @ ''C. 3'' @ [NL] @
     ''D. 4'' @ [NL] @ ''Correct Answer: D'' @ [NL]"

lemma earlyLine_values:
  "spec_stem earlyLine = Some []"
  "questionOf earlyLine = ''A. an early line here''"
  "parseSegment (Finite 5) earlyLine \<noteq> None"
  by code_simp+

definition noBoundary :: string where
  "noBoundary = ''Which city is the capital of India? A. Pune B. Delhi C. Agra''"

lemma noBoundary_values:
  "firstBoundary ''A.'' noBoundary = None"
  "firstBoundary ''A.'' bodyComplete =
     Some ('' Which city is the capital of India?'',
           [NL] @ ''A. Pune'' @ [NL] @ ''B. Delhi'' @ [NL] @ ''C. Agra'' @ [NL] @ ''D. Goa'' @ [NL])"
  by code_simp+

text \<open>
  C6, as the specification states it, fails: in a body whose first line begins with \<open>A.\<close> the
  text before the first such line is empty, yet the stem extracted is the first line and the
  segment gives a record.
\<close>

theorem stem_first_line_counterexample:
  "spec_stem earlyLine = Some [] \<and>
   questionOf earlyLine = ''A. an early line here'' \<and>
   parseSegment (Finite 5) earlyLine \<noteq> None"
  by (simp add: earlyLine_values)

text \<open>
  C6, amended. The stem is the trimmed text before the first line break that stands after at
  least one character of the body and is followed by optional white space and \<open>A.\<close> in
  either case; it is empty when there is no such line break. A segment with no such line
  break, or with a stem under 10 characters, gives no record.
\<close>

theorem stem_before_first_boundary:
  "questionOf body = (case firstBoundary ''A.'' body of None \<Rightarrow> [] | Some (u, v) \<Rightarrow> trim u) \<and>
   (firstBoundary ''A.'' body = None \<or> length (questionOf body) < 10 \<longrightarrow>
      parseSegment n body = None)"
proof
  show "questionOf body = (case firstBoundary ''A.'' body of None \<Rightarrow> [] | Some (u, v) \<Rightarrow> trim u)"
    by (rule questionOf_firstBoundary)
  show "firstBoundary ''A.'' body = None \<or> length (questionOf body) < 10 \<longrightarrow>
          parseSegment n body = None"
    using parseSegment_short_stem [of body n] by (auto simp: questionOf_firstBoundary)
qed

theorem stem_before_first_boundary_witness:
  "firstBoundary ''A.'' noBoundary = None \<and> parseSegment (Finite 5) noBoundary = None \<and>
   questionOf bodyComplete = ''Which city is the capital of India?''"
proof -
  from stem_before_first_boundary [of noBoundary "Finite 5"] noBoundary_values(1)
  have 1: "parseSegment (Finite 5) noBoundary = None" by simp
  from stem_before_first_boundary [of bodyComplete "Finite 5"] noBoundary_values(2)
  have "questionOf bodyComplete = trim '' Which city is the capital of India?''" by simp
  also have "\<dots> = ''Which city is the capital of India?''" by code_simp
  finally show ?thesis using 1 noBoundary_values(1) by simp
qed

section \<open>The state between calls\<close>

subsection \<open>Positions and indices\<close>

text \<open>
  A match state belongs to a string when its input is a suffix of the string and its previous
  character is the one before that suffix. The matcher keeps this, so the end of a match can be
  kept as an index and found again.
\<close>

definition coherent :: "string \<Rightarrow> mstate \<Rightarrow> bool" where
  "coherent str s =
     (\<exists>u. str = u @ rest s \<and> prev s = (if u = [] then None else Some (last u)))"

lemma coherent_caps [simp]: "coherent str (s\<lparr>caps := f\<rparr>) = coherent str s"
  by (simp add: coherent_def)

lemma coherent_moved:
  assumes "coherent str s" and "rest s = w @ v"
  shows "coherent str (moved w v s)"
proof -
  from assms(1) obtain u where u: "str = u @ rest s"
    and p: "prev s = (if u = [] then None else Some (last u))"
    unfolding coherent_def by blast
  have "str = (u @ w) @ rest (moved w v s)" using u assms(2) by simp
  moreover have "prev (moved w v s) = (if u @ w = [] then None else Some (last (u @ w)))"
    using p by (simp add: prev_moved)
  ultimately show ?thesis unfolding coherent_def by blast
qed

lemma coherent_step: "coherent str s \<Longrightarrow> rest s = c # cs \<Longrightarrow> coherent str (step c cs s)"
  using coherent_moved [of str s "[c]" cs] by (simp add: step_moved)

lemma coherent_eat: "eat i ps s = Some e \<Longrightarrow> coherent str s \<Longrightarrow> coherent str e"
  using coherent_moved [of str s] by (auto simp: eat_iff)

lemma run_coherent: "run i k s = Some e \<Longrightarrow> coherent str s \<Longrightarrow> coherent str e"
proof (induction i k s arbitrary: e rule: run.induct)
  case (2 i ps k s)
  then show ?case by (auto split: option.splits dest: coherent_eat)
next
  case (13 i n k s)
  then show ?case by (fastforce split: option.splits dest: coherent_eat)
next
  case (8 i r k s)
  then show ?case by (auto simp: run.simps(8) split: option.splits)
next
  case (9 i r k s)
  then show ?case by (auto simp: run.simps(9) split: option.splits)
qed (auto split: option.splits list.splits if_splits dest: coherent_step)

lemma coherent_at:
  assumes "l \<le> length str"
  shows "coherent str (at (charBefore str l) (drop l str))"
proof -
  have "str = take l str @ drop l str" by simp
  moreover have "charBefore str l = (if take l str = [] then None else Some (last (take l str)))"
    using assms by (cases l) (auto simp: charBefore_def last_conv_nth)
  ultimately show ?thesis unfolding coherent_def at_def by (intro exI [of _ "take l str"]) simp
qed

lemma search_coherent:
  assumes "search i r pv s0 = Some (k, st, e)" and "coherent str (at pv s0)"
  shows "coherent str e"
proof -
  from search_Some [OF assms(1)] have s0: "s0 = k @ st"
    and r: "run i [Re r] (at (if k = [] then pv else Some (last k)) st) = Some e" by auto
  have "at (if k = [] then pv else Some (last k)) st = moved k st (at pv s0)"
    by (simp add: at_def moved_def)
  moreover have "coherent str (moved k st (at pv s0))"
    using coherent_moved [OF assms(2), of k st] s0 by (simp add: at_def)
  ultimately show ?thesis using run_coherent [OF r] by simp
qed

lemma coherent_index:
  assumes "coherent str e"
  shows "drop (length str - length (rest e)) str = rest e"
    and "charBefore str (length str - length (rest e)) = prev e"
    and "length (rest e) \<le> length str"
proof -
  from assms obtain u where u: "str = u @ rest e"
    and p: "prev e = (if u = [] then None else Some (last u))"
    unfolding coherent_def by blast
  from u have l: "length str - length (rest e) = length u" by (metis add_diff_cancel_right' length_append)
  show "drop (length str - length (rest e)) str = rest e" unfolding l using u by (metis append_eq_conv_conj)
  show "length (rest e) \<le> length str" using u by (metis le_add2 length_append)
  show "charBefore str (length str - length (rest e)) = prev e"
    unfolding l using u p by (cases "u = []") (auto simp: charBefore_def nth_append last_conv_nth)
qed

lemma regExpExec_global:
  assumes "global R" and "lastIndex R = l" and "l \<le> length str"
  shows "regExpExec str R =
           (case search (ignoreCase R) (source R) (charBefore str l) (drop l str) of
              None \<Rightarrow> (None, R\<lparr>lastIndex := 0\<rparr>)
            | Some (k, st, e) \<Rightarrow> (Some (k, st, e), R\<lparr>lastIndex := length str - length (rest e)\<rparr>))"
  using assms by (simp add: regExpExec_def split: option.splits)

lemma regExpExec_beyond:
  assumes "global R" and "length str < lastIndex R"
  shows "regExpExec str R = (None, R\<lparr>lastIndex := 0\<rparr>)"
  using assms by (simp add: regExpExec_def)

lemma regExpExec_first:
  assumes "\<not> global R"
  shows "regExpExec str R = (search (ignoreCase R) (source R) None str, R)"
  using assms by (auto simp add: regExpExec_def charBefore_def split: option.splits)

subsection \<open>What the methods of a pattern compute\<close>

lemma search_drop:
  assumes "search i r (charBefore str l) (drop l str) = Some (k, st, e)" and "l \<le> length str"
  shows "drop l str = k @ st"
    and "length str - length st = l + length k"
    and "drop (length str - length st) str = st"
    and "length str - length (rest e) = length str - length st + (length st - length (rest e))"
    and "drop (length str - length (rest e)) str = rest e"
    and "charBefore str (length str - length (rest e)) = prev e"
    and "length (rest e) \<le> length st"
proof -
  from search_Some [OF assms(1)] show d: "drop l str = k @ st" by simp
  have "length (drop l str) = length str - l" by simp
  with d assms(2) show p: "length str - length st = l + length k" by simp
  have "drop (l + length k) str = drop (length k) (drop l str)" by (simp add: add.commute)
  with d p show "drop (length str - length st) str = st" by simp
  from search_length [OF assms(1)] show le: "length (rest e) \<le> length st" by simp
  from d have "length st \<le> length str"
    by (metis diff_le_self le_add2 le_trans length_append length_drop)
  with le show "length str - length (rest e) = length str - length st + (length st - length (rest e))"
    by simp
  from search_coherent [OF assms(1) coherent_at [OF assms(2)]] have "coherent str e" .
  from coherent_index [OF this]
  show "drop (length str - length (rest e)) str = rest e"
    and "charBefore str (length str - length (rest e)) = prev e" by simp_all
qed

lemma take_between:
  assumes "nsp \<le> l" and "l \<le> length str" and "drop l str = k @ st"
  shows "take (l + length k - nsp) (drop nsp str) = take (l - nsp) (drop nsp str) @ k"
proof -
  define A where "A = take (l - nsp) (drop nsp str)"
  have "drop (l - nsp) (drop nsp str) = drop l str" using assms(1) by simp
  then have d: "drop nsp str = A @ k @ st"
    unfolding A_def using assms(3) by (metis append_take_drop_id)
  have "length A = l - nsp" unfolding A_def using assms(1,2) by simp
  then have "l + length k - nsp = length A + length k" using assms(1) by simp
  then show ?thesis unfolding A_def [symmetric] d by simp
qed

lemma everyMatch_step:
  assumes "global R" and "lastIndex R = l" and "l \<le> length str"
    and "search (ignoreCase R) (source R) (charBefore str l) (drop l str) = Some (k, st, e)"
  shows "everyMatch str R =
           (case everyMatch str
                   (R\<lparr>lastIndex := (if length (rest e) = length st
                                      then length str - length (rest e) + 1
                                      else length str - length (rest e))\<rparr>) of
              (ms, R2) \<Rightarrow> ((k, st, e) # ms, R2))"
  by (subst everyMatch.simps) (simp add: regExpExec_global [OF assms(1-3)] assms)

lemma everyMatch_done:
  assumes "global R" and "lastIndex R = l" and "l \<le> length str"
    and "search (ignoreCase R) (source R) (charBefore str l) (drop l str) = None"
  shows "everyMatch str R = ([], R\<lparr>lastIndex := 0\<rparr>)"
  by (subst everyMatch.simps) (simp add: regExpExec_global [OF assms(1-3)] assms)

lemma everyMatch_beyond:
  assumes "global R" and "length str < lastIndex R"
  shows "everyMatch str R = ([], R\<lparr>lastIndex := 0\<rparr>)"
  by (subst everyMatch.simps) (simp add: regExpExec_beyond [OF assms])

lemma everyMatch_first:
  assumes "\<not> global R"
  shows "everyMatch str R =
           (case search (ignoreCase R) (source R) None str of
              None \<Rightarrow> ([], R)
            | Some m \<Rightarrow> ([m], R))"
  by (subst everyMatch.simps) (auto simp: regExpExec_first [OF assms] assms split: option.splits)

lemma everyMatch_replaceAll:
  "global R \<Longrightarrow> lastIndex R \<le> length str \<Longrightarrow> nsp \<le> lastIndex R \<Longrightarrow>
     accumulate str nsp (fst (everyMatch str R)) =
       take (lastIndex R - nsp) (drop nsp str) @
       replaceAll (ignoreCase R) (source R) (charBefore str (lastIndex R)) (drop (lastIndex R) str) \<and>
     snd (everyMatch str R) = R\<lparr>lastIndex := 0\<rparr>"
proof (induction "length str - lastIndex R" arbitrary: R nsp rule: less_induct)
  case less
  define l where "l = lastIndex R"
  note g = less.prems(1)
  have l: "l \<le> length str" and n: "nsp \<le> l" using less.prems by (simp_all add: l_def)
  have li: "lastIndex R = l" by (simp add: l_def)
  show ?case
  proof (cases "search (ignoreCase R) (source R) (charBefore str l) (drop l str)")
    case None
    have "take (l - nsp) (drop nsp str) @ drop l str = drop nsp str"
      using n by (metis append_take_drop_id drop_drop le_add_diff_inverse2)
    then show ?thesis
      by (simp add: everyMatch_done [OF g li l None] li replaceAll.simps [of _ _ _ "drop l str"] None)
  next
    case (Some t)
    then obtain k st e where s: "search (ignoreCase R) (source R) (charBefore str l) (drop l str) =
        Some (k, st, e)" by (cases t) auto
    note d = search_drop [OF s l]
    note tb = take_between [OF n l d(1)]
    define R2 where "R2 = R\<lparr>lastIndex := (if length (rest e) = length st
                                      then length str - length (rest e) + 1
                                      else length str - length (rest e))\<rparr>"
    have step: "everyMatch str R = (case everyMatch str R2 of (ms, R3) \<Rightarrow> ((k, st, e) # ms, R3))"
      unfolding R2_def by (rule everyMatch_step [OF g li l s])
    have g2: "global R2" using g by (simp add: R2_def)
    have ic: "ignoreCase R2 = ignoreCase R" "source R2 = source R"
      "R2\<lparr>lastIndex := 0\<rparr> = R\<lparr>lastIndex := 0\<rparr>" by (simp_all add: R2_def)
    have acc: "accumulate str nsp (fst (everyMatch str R)) =
                 take (l - nsp) (drop nsp str) @ k @
                 accumulate str (length str - length (rest e)) (fst (everyMatch str R2))"
      using n d(2) d(4) tb by (simp add: step split_beta Let_def)
    have pure: "replaceAll (ignoreCase R) (source R) (charBefore str l) (drop l str) =
                  (if length (rest e) < length st
                   then k @ replaceAll (ignoreCase R) (source R) (prev e) (rest e)
                   else (case st of [] \<Rightarrow> k
                         | c # cs \<Rightarrow> k @ c # replaceAll (ignoreCase R) (source R) (Some c) cs))"
      by (subst replaceAll.simps) (simp add: s)
    show ?thesis
    proof (cases "length (rest e) < length st")
      case True
      then have R2: "R2 = R\<lparr>lastIndex := length str - length (rest e)\<rparr>"
        by (simp add: R2_def)
      then have r2: "lastIndex R2 = length str - length (rest e)" by simp
      have le: "lastIndex R2 \<le> length str" by (simp add: r2)
      have m: "length str - lastIndex R2 < length str - lastIndex R"
        using True d(2) d(4) l by (simp add: r2 li)
      from less.hyps [OF m g2 le, of "length str - length (rest e)"]
      have "accumulate str (length str - length (rest e)) (fst (everyMatch str R2)) =
              replaceAll (ignoreCase R) (source R) (prev e) (rest e)"
        and "snd (everyMatch str R2) = R\<lparr>lastIndex := 0\<rparr>"
        by (simp_all add: r2 d(5) d(6) ic)
      then show ?thesis using acc pure True by (simp add: li step split_beta)
    next
      case False
      with d(7) have eq: "length (rest e) = length st" by simp
      show ?thesis
      proof (cases st)
        case Nil
        then have "length str < lastIndex R2" using eq by (simp add: R2_def)
        from everyMatch_beyond [OF g2 this]
        have e2: "everyMatch str R2 = ([], R\<lparr>lastIndex := 0\<rparr>)" by (simp add: ic)
        show ?thesis using acc pure False Nil eq by (simp add: li step e2)
      next
        case (Cons c cs)
        have R2: "R2 = R\<lparr>lastIndex := Suc (length str - length st)\<rparr>"
          using eq by (simp add: R2_def)
        then have r2: "lastIndex R2 = Suc (length str - length st)" by simp
        have ls: "length st \<le> length str" using d(2) d(1)
          by (metis diff_le_self le_add2 le_trans length_append length_drop)
        have le: "lastIndex R2 \<le> length str" using Cons ls by (simp add: r2)
        have m: "length str - lastIndex R2 < length str - lastIndex R"
          using d(2) l Cons ls by (simp add: r2 li)
        have dd: "drop (Suc (length str - length st)) str = cs"
          using d(3) Cons by (metis drop_Suc tl_drop list.sel(3))
        have cb: "charBefore str (Suc (length str - length st)) = Some c"
          using d(3) Cons ls by (simp add: charBefore_def) (metis Cons_nth_drop_Suc diff_less_mono2 drop_all leI list.inject list.simps(3) not_less_eq)
        have t1: "take (Suc 0) (drop (length str - length st) str) = [c]"
          using d(3) Cons by simp
        from less.hyps [OF m g2 le, of "length str - length st"]
        have "accumulate str (length str - length st) (fst (everyMatch str R2)) =
                c # replaceAll (ignoreCase R) (source R) (Some c) cs"
          and "snd (everyMatch str R2) = R\<lparr>lastIndex := 0\<rparr>"
          by (simp_all add: r2 dd cb t1 ic)
        then show ?thesis using acc pure False Cons eq by (simp add: li step split_beta)
      qed
    qed
  qed
qed

lemma everyMatch_matchAll:
  "global R \<Longrightarrow> lastIndex R \<le> length str \<Longrightarrow>
     map (\<lambda>(k, st, e). slice (st, rest e)) (fst (everyMatch str R)) =
       matchAll (ignoreCase R) (source R) (charBefore str (lastIndex R)) (drop (lastIndex R) str)"
proof (induction "length str - lastIndex R" arbitrary: R rule: less_induct)
  case less
  define l where "l = lastIndex R"
  note g = less.prems(1)
  have l: "l \<le> length str" using less.prems by (simp add: l_def)
  have li: "lastIndex R = l" by (simp add: l_def)
  show ?case
  proof (cases "search (ignoreCase R) (source R) (charBefore str l) (drop l str)")
    case None
    then show ?thesis
      by (simp add: everyMatch_done [OF g li l None] li matchAll.simps [of _ _ _ "drop l str"])
  next
    case (Some t)
    then obtain k st e where s: "search (ignoreCase R) (source R) (charBefore str l) (drop l str) =
        Some (k, st, e)" by (cases t) auto
    note d = search_drop [OF s l]
    define R2 where "R2 = R\<lparr>lastIndex := (if length (rest e) = length st
                                      then length str - length (rest e) + 1
                                      else length str - length (rest e))\<rparr>"
    have step: "everyMatch str R = (case everyMatch str R2 of (ms, R3) \<Rightarrow> ((k, st, e) # ms, R3))"
      unfolding R2_def by (rule everyMatch_step [OF g li l s])
    have g2: "global R2" using g by (simp add: R2_def)
    have ic: "ignoreCase R2 = ignoreCase R" "source R2 = source R" by (simp_all add: R2_def)
    have pure: "matchAll (ignoreCase R) (source R) (charBefore str l) (drop l str) =
                  (if length (rest e) < length st
                   then slice (st, rest e) # matchAll (ignoreCase R) (source R) (prev e) (rest e)
                   else (case st of [] \<Rightarrow> [[]]
                         | c # cs \<Rightarrow> [] # matchAll (ignoreCase R) (source R) (Some c) cs))"
      by (subst matchAll.simps) (simp add: s)
    show ?thesis
    proof (cases "length (rest e) < length st")
      case True
      then have r2: "lastIndex R2 = length str - length (rest e)" by (simp add: R2_def)
      have le: "lastIndex R2 \<le> length str" by (simp add: r2)
      have m: "length str - lastIndex R2 < length str - lastIndex R"
        using True d(2) d(4) l by (simp add: r2 li)
      from less.hyps [OF m g2 le]
      have "map (\<lambda>(k, st, e). slice (st, rest e)) (fst (everyMatch str R2)) =
              matchAll (ignoreCase R) (source R) (prev e) (rest e)"
        by (simp add: r2 d(5) d(6) ic)
      then show ?thesis using pure True by (simp add: li step split_beta)
    next
      case False
      with d(7) have eq: "length (rest e) = length st" by simp
      then have sl: "slice (st, rest e) = []" by (simp add: slice_def)
      show ?thesis
      proof (cases st)
        case Nil
        then have "length str < lastIndex R2" using eq by (simp add: R2_def)
        from everyMatch_beyond [OF g2 this]
        have e2: "fst (everyMatch str R2) = []" by simp
        show ?thesis using pure False Nil eq sl by (simp add: li step e2 split_beta)
      next
        case (Cons c cs)
        have r2: "lastIndex R2 = Suc (length str - length st)" using eq by (simp add: R2_def)
        have ls: "length st \<le> length str" using d(2) d(1)
          by (metis diff_le_self le_add2 le_trans length_append length_drop)
        have le: "lastIndex R2 \<le> length str" using Cons ls by (simp add: r2)
        have m: "length str - lastIndex R2 < length str - lastIndex R"
          using d(2) l Cons ls by (simp add: r2 li)
        have dd: "drop (Suc (length str - length st)) str = cs"
          using d(3) Cons by (metis drop_Suc tl_drop list.sel(3))
        have cb: "charBefore str (Suc (length str - length st)) = Some c"
          using d(3) Cons ls by (simp add: charBefore_def) (metis Cons_nth_drop_Suc diff_less_mono2 drop_all leI list.inject list.simps(3) not_less_eq)
        from less.hyps [OF m g2 le]
        have "map (\<lambda>(k, st, e). slice (st, rest e)) (fst (everyMatch str R2)) =
                matchAll (ignoreCase R) (source R) (Some c) cs"
          by (simp add: r2 dd cb ic)
        then show ?thesis using pure False Cons eq sl by (simp add: li step split_beta)
      qed
    qed
  qed
qed

lemma charBefore_0 [simp]: "charBefore str 0 = None"
  by (simp add: charBefore_def)

lemma symbolReplace_fresh:
  assumes "lastIndex R = 0"
  shows "symbolReplace str R =
           (if global R then replaceAll (ignoreCase R) (source R) None str
            else replaceFirst (ignoreCase R) (source R) str, R)"
proof (cases "global R")
  case True
  from assms have R: "R\<lparr>lastIndex := 0\<rparr> = R" by simp
  from everyMatch_replaceAll [OF True, of str 0] assms
  show ?thesis using True by (simp add: symbolReplace_def split_beta R)
next
  case False
  show ?thesis
  proof (cases "search (ignoreCase R) (source R) None str")
    case None
    then show ?thesis using False
      by (simp add: symbolReplace_def everyMatch_first replaceFirst_def)
  next
    case (Some t)
    then obtain k st e where s: "search (ignoreCase R) (source R) (charBefore str 0) (drop 0 str) =
        Some (k, st, e)" by (cases t) auto
    note d = search_drop [OF s]
    from d(1) have "take (length str - length st) str = k" by simp
    then show ?thesis using False s d(4) d(5)
      by (simp add: symbolReplace_def everyMatch_first replaceFirst_def Let_def)
  qed
qed

lemma symbolMatch_first:
  "\<not> global R \<Longrightarrow> symbolMatch str R = (js_match (ignoreCase R) (source R) str, R)"
  by (simp add: symbolMatch_def regExpExec_first js_match_def)

lemma symbolMatchAll_fresh:
  assumes "global R" and "lastIndex R = 0"
  shows "symbolMatchAll str R = (matchAll (ignoreCase R) (source R) None str, R)"
proof -
  from assms have R: "R\<lparr>lastIndex := 0\<rparr> = R" by simp
  from everyMatch_matchAll [OF assms(1), of str] assms(2)
    everyMatch_replaceAll [OF assms(1), of str 0] 
  show ?thesis by (simp add: symbolMatchAll_def split_beta R)
qed

subsection \<open>The state that a call finds and the state that it leaves\<close>

text \<open>
  A call only allocates when the state it leaves is the state it found with more objects, and
  the state has grown when, in addition, lines were written to the console.
\<close>

definition allocated :: "world \<Rightarrow> world \<Rightarrow> bool" where
  "allocated \<sigma> \<sigma>' = ((\<exists>os. objects \<sigma>' = objects \<sigma> @ os) \<and> console \<sigma>' = console \<sigma>)"

definition grown :: "world \<Rightarrow> world \<Rightarrow> bool" where
  "grown \<sigma> \<sigma>' =
     ((\<exists>os. objects \<sigma>' = objects \<sigma> @ os) \<and> (\<exists>ls. console \<sigma>' = console \<sigma> @ ls))"

lemma allocated_refl [simp]: "allocated \<sigma> \<sigma>"
  by (simp add: allocated_def)

lemma allocated_trans: "allocated \<sigma> \<sigma>1 \<Longrightarrow> allocated \<sigma>1 \<sigma>2 \<Longrightarrow> allocated \<sigma> \<sigma>2"
  by (auto simp: allocated_def)

lemma allocated_new [simp]: "allocated \<sigma>0 \<sigma> \<Longrightarrow> allocated \<sigma>0 (\<sigma>\<lparr>objects := objects \<sigma> @ os\<rparr>)"
  by (auto simp: allocated_def)

lemma allocated_eq:
  assumes "allocated \<sigma> \<sigma>'"
  shows "\<exists>os. \<sigma>' = \<sigma>\<lparr>objects := objects \<sigma> @ os\<rparr>"
proof -
  from assms obtain os where "objects \<sigma>' = objects \<sigma> @ os" and "console \<sigma>' = console \<sigma>"
    unfolding allocated_def by blast
  then have "\<sigma>' = \<sigma>\<lparr>objects := objects \<sigma> @ os\<rparr>" by (cases \<sigma>; cases \<sigma>') simp
  then show ?thesis by blast
qed

lemma grown_refl [simp]: "grown \<sigma> \<sigma>"
  by (simp add: grown_def)

lemma grown_trans: "grown \<sigma> \<sigma>1 \<Longrightarrow> grown \<sigma>1 \<sigma>2 \<Longrightarrow> grown \<sigma> \<sigma>2"
  by (auto simp: grown_def)

lemma grown_allocated: "grown \<sigma>0 \<sigma> \<Longrightarrow> allocated \<sigma> \<sigma>' \<Longrightarrow> grown \<sigma>0 \<sigma>'"
  by (auto simp: grown_def allocated_def)

lemma grown_new [simp]: "grown \<sigma>0 \<sigma> \<Longrightarrow> grown \<sigma>0 (\<sigma>\<lparr>objects := objects \<sigma> @ os\<rparr>)"
  by (auto simp: grown_def)

lemma grown_log [simp]: "grown \<sigma>0 \<sigma> \<Longrightarrow> grown \<sigma>0 (\<sigma>\<lparr>console := console \<sigma> @ ls\<rparr>)"
  by (auto simp: grown_def)

lemma newRegExp_simps [simp]:
  "fst (newRegExp r i g \<sigma>) = length (objects \<sigma>)"
  "snd (newRegExp r i g \<sigma>) =
     \<sigma>\<lparr>objects := objects \<sigma> @ [\<lparr>source = r, ignoreCase = i, global = g, lastIndex = 0\<rparr>]\<rparr>"
  by (simp_all add: newRegExp_def)

lemma call_new:
  "call (length (objects \<sigma>)) method (\<sigma>\<lparr>objects := objects \<sigma> @ [R]\<rparr>) =
     (fst (method R), \<sigma>\<lparr>objects := objects \<sigma> @ [snd (method R)]\<rparr>)"
  by (simp add: call_def split_beta)

lemma call_same:
  "a < length (objects \<sigma>) \<Longrightarrow> snd (method (objects \<sigma> ! a)) = objects \<sigma> ! a \<Longrightarrow>
     call a method \<sigma> = (fst (method (objects \<sigma> ! a)), \<sigma>)"
  by (simp add: call_def split_beta)

subsection \<open>The loops over the matches of a pattern\<close>

lemma execAll_Nil:
  "execAll i r pv str = Some [] \<Longrightarrow> search i r pv str = None"
  by (subst (asm) execAll.simps) (auto split: option.splits if_splits)

lemma execAll_Cons:
  "execAll i r pv str = Some (e # es) \<Longrightarrow>
     \<exists>k st. search i r pv str = Some (k, st, e) \<and> execAll i r (prev e) (rest e) = Some es"
  by (subst (asm) execAll.simps) (auto split: option.splits if_splits)

lemma execLoop_execAll:
  assumes bodyP: "\<And>m \<sigma>. fst (body m \<sigma>) = bodyP m"
    and alloc: "\<And>m \<sigma>. allocated \<sigma> (snd (body m \<sigma>))"
  shows "a < length (objects \<sigma>) \<Longrightarrow> objects \<sigma> ! a = R \<Longrightarrow> global R \<Longrightarrow> lastIndex R \<le> length str \<Longrightarrow>
     execAll (ignoreCase R) (source R) (charBefore str (lastIndex R)) (drop (lastIndex R) str) = Some es \<Longrightarrow>
     \<exists>os. execLoop a str body blocks \<sigma> =
            Some (blocks @ concat (map bodyP es),
                  \<sigma>\<lparr>objects := (objects \<sigma>)[a := R\<lparr>lastIndex := 0\<rparr>] @ os\<rparr>)"
proof (induction es arbitrary: \<sigma> R blocks)
  case Nil
  from execAll_Nil [OF Nil(5)]
  have "regExpExec str R = (None, R\<lparr>lastIndex := 0\<rparr>)"
    using Nil(3,4) by (simp add: regExpExec_global)
  then have "execLoop a str body blocks \<sigma> =
               Some (blocks, \<sigma>\<lparr>objects := (objects \<sigma>)[a := R\<lparr>lastIndex := 0\<rparr>]\<rparr>)"
    using Nil(2) by (subst execLoop.simps) (simp add: call_def)
  then show ?case by (intro exI [of _ "[]"]) simp
next
  case (Cons e es)
  from execAll_Cons [OF Cons(6)] obtain k st where
    s: "search (ignoreCase R) (source R) (charBefore str (lastIndex R)) (drop (lastIndex R) str) =
          Some (k, st, e)"
    and ex: "execAll (ignoreCase R) (source R) (prev e) (rest e) = Some es" by blast
  note d = search_drop [OF s Cons(5)]
  define R1 where "R1 = R\<lparr>lastIndex := length str - length (rest e)\<rparr>"
  define \<sigma>1 where "\<sigma>1 = \<sigma>\<lparr>objects := (objects \<sigma>)[a := R1]\<rparr>"
  have x: "call a (regExpExec str) \<sigma> = (Some (k, st, e), \<sigma>1)"
    using Cons(3,4,5) s by (simp add: call_def regExpExec_global \<sigma>1_def R1_def)
  from allocated_eq [OF alloc [of \<sigma>1 e]] obtain os1 where
    b: "snd (body e \<sigma>1) = \<sigma>1\<lparr>objects := objects \<sigma>1 @ os1\<rparr>" by blast
  define \<sigma>2 where "\<sigma>2 = \<sigma>1\<lparr>objects := objects \<sigma>1 @ os1\<rparr>"
  have body: "body e \<sigma>1 = (bodyP e, \<sigma>2)"
    using bodyP [of e \<sigma>1] b by (simp add: \<sigma>2_def prod_eq_iff)
  have step: "execLoop a str body blocks \<sigma> = execLoop a str body (blocks @ bodyP e) \<sigma>2"
    by (subst execLoop.simps) (simp add: x body)
  have a2: "a < length (objects \<sigma>2)" using Cons(2) by (simp add: \<sigma>2_def \<sigma>1_def)
  have o2: "objects \<sigma>2 ! a = R1" using Cons(2) by (simp add: \<sigma>2_def \<sigma>1_def nth_append)
  have g1: "global R1" using Cons(4) by (simp add: R1_def)
  have l1: "lastIndex R1 \<le> length str" by (simp add: R1_def)
  have e1: "execAll (ignoreCase R1) (source R1) (charBefore str (lastIndex R1))
              (drop (lastIndex R1) str) = Some es"
    using ex d(5) d(6) by (simp add: R1_def)
  from Cons.IH [OF a2 o2 g1 l1 e1, of "blocks @ bodyP e"] obtain os2 where
    r: "execLoop a str body (blocks @ bodyP e) \<sigma>2 =
          Some ((blocks @ bodyP e) @ concat (map bodyP es),
                \<sigma>2\<lparr>objects := (objects \<sigma>2)[a := R1\<lparr>lastIndex := 0\<rparr>] @ os2\<rparr>)" by blast
  have "\<sigma>2\<lparr>objects := (objects \<sigma>2)[a := R1\<lparr>lastIndex := 0\<rparr>] @ os2\<rparr> =
        \<sigma>\<lparr>objects := (objects \<sigma>)[a := R\<lparr>lastIndex := 0\<rparr>] @ (os1 @ os2)\<rparr>"
    using Cons(2) by (simp add: \<sigma>2_def \<sigma>1_def R1_def list_update_append1)
  with r step show ?case by (intro exI [of _ "os1 @ os2"]) simp
qed

lemma execLoop_new:
  assumes bodyP: "\<And>m \<sigma>. fst (body m \<sigma>) = bodyP m"
    and alloc: "\<And>m \<sigma>. allocated \<sigma> (snd (body m \<sigma>))"
    and es: "execAll i r None str = Some es"
    and \<sigma>0: "allocated \<sigma>0 \<sigma>"
  shows "\<exists>\<sigma>'. execLoop (fst (newRegExp r i True \<sigma>)) str body blocks (snd (newRegExp r i True \<sigma>)) =
                Some (blocks @ concat (map bodyP es), \<sigma>') \<and> allocated \<sigma>0 \<sigma>'"
proof -
  define R where "R = \<lparr>source = r, ignoreCase = i, global = True, lastIndex = 0\<rparr>"
  define \<sigma>1 where "\<sigma>1 = \<sigma>\<lparr>objects := objects \<sigma> @ [R]\<rparr>"
  have 1: "length (objects \<sigma>) < length (objects \<sigma>1)" by (simp add: \<sigma>1_def)
  have 2: "objects \<sigma>1 ! length (objects \<sigma>) = R" by (simp add: \<sigma>1_def)
  have 3: "global R" "lastIndex R \<le> length str" by (simp_all add: R_def)
  have 4: "execAll (ignoreCase R) (source R) (charBefore str (lastIndex R)) (drop (lastIndex R) str)
           = Some es" using es by (simp add: R_def)
  from execLoop_execAll [of body bodyP, OF bodyP alloc 1 2 3 4, of blocks] obtain os where
    r: "execLoop (length (objects \<sigma>)) str body blocks \<sigma>1 =
          Some (blocks @ concat (map bodyP es),
                \<sigma>1\<lparr>objects := (objects \<sigma>1)[length (objects \<sigma>) := R\<lparr>lastIndex := 0\<rparr>] @ os\<rparr>)"
    by blast
  have "\<sigma>1\<lparr>objects := (objects \<sigma>1)[length (objects \<sigma>) := R\<lparr>lastIndex := 0\<rparr>] @ os\<rparr> =
        \<sigma>\<lparr>objects := objects \<sigma> @ (R # os)\<rparr>" by (simp add: \<sigma>1_def R_def)
  moreover have "allocated \<sigma>0 (\<sigma>\<lparr>objects := objects \<sigma> @ (R # os)\<rparr>)" using \<sigma>0 by simp
  ultimately show ?thesis using r by (simp add: \<sigma>1_def R_def)
qed

subsection \<open>The HTML block extractor\<close>

lemma stripTags_st_eq:
  "stripTags_st s \<sigma> =
     (stripTags s,
      \<sigma>\<lparr>objects := objects \<sigma> @
         [\<lparr>source = tagPattern, ignoreCase = False, global = True, lastIndex = 0\<rparr>]\<rparr>)"
  by (simp add: stripTags_st_def split_beta call_new symbolReplace_fresh stripTags_def)

lemma stripTags_st_fst [simp]: "fst (stripTags_st s \<sigma>) = stripTags s"
  by (simp add: stripTags_st_eq)

lemma stripTags_st_allocated [simp]:
  "allocated \<sigma>0 \<sigma> \<Longrightarrow> allocated \<sigma>0 (snd (stripTags_st s \<sigma>))"
  by (simp add: stripTags_st_eq)

lemma headingBlock_st_fst [simp]: "fst (headingBlock_st m \<sigma>) = headingBlock m"
  by (simp add: headingBlock_st_def headingBlock_def split_beta Let_def)

lemma headingBlock_st_allocated [simp]:
  "allocated \<sigma>0 \<sigma> \<Longrightarrow> allocated \<sigma>0 (snd (headingBlock_st m \<sigma>))"
  by (simp add: headingBlock_st_def split_beta Let_def)

lemma paragraphBlock_st_fst [simp]: "fst (paragraphBlock_st m \<sigma>) = paragraphBlock m"
  by (simp add: paragraphBlock_st_def paragraphBlock_def split_beta Let_def)

lemma paragraphBlock_st_allocated [simp]:
  "allocated \<sigma>0 \<sigma> \<Longrightarrow> allocated \<sigma>0 (snd (paragraphBlock_st m \<sigma>))"
  by (simp add: paragraphBlock_st_def split_beta Let_def)

lemma quoteBlock_st_fst [simp]: "fst (quoteBlock_st m \<sigma>) = quoteBlock m"
  by (simp add: quoteBlock_st_def quoteBlock_def split_beta Let_def)

lemma quoteBlock_st_allocated [simp]:
  "allocated \<sigma>0 \<sigma> \<Longrightarrow> allocated \<sigma>0 (snd (quoteBlock_st m \<sigma>))"
  by (simp add: quoteBlock_st_def split_beta Let_def)

lemma stripEach_fst [simp]: "fst (stripEach listItems \<sigma>) = map stripTags listItems"
  by (induction listItems arbitrary: \<sigma>) (simp_all add: split_beta)

lemma stripEach_allocated [simp]:
  "allocated \<sigma>0 \<sigma> \<Longrightarrow> allocated \<sigma>0 (snd (stripEach listItems \<sigma>))"
  by (induction listItems arbitrary: \<sigma>) (simp_all add: split_beta)

lemma listBlock_st_fst [simp]: "fst (listBlock_st m \<sigma>) = listBlock m"
  by (simp add: listBlock_st_def listBlock_def split_beta Let_def call_new symbolMatchAll_fresh)

lemma listBlock_st_allocated [simp]:
  "allocated \<sigma>0 \<sigma> \<Longrightarrow> allocated \<sigma>0 (snd (listBlock_st m \<sigma>))"
  by (simp add: listBlock_st_def split_beta Let_def call_new symbolMatchAll_fresh)

lemma parseHtmlToBlocks_st_eq:
  assumes "allocated \<sigma>0 \<sigma>"
  shows "\<exists>blocks \<sigma>'. parseHtmlToBlocks html = Some blocks \<and>
           parseHtmlToBlocks_st html \<sigma> = Some (blocks, \<sigma>') \<and> allocated \<sigma>0 \<sigma>'"
proof -
  define c1 where "c1 = replaceAll True (elementPattern ''script'') None html"
  define c where "c = replaceAll True (elementPattern ''style'') None c1"
  define \<sigma>1 where "\<sigma>1 = \<sigma>\<lparr>objects := objects \<sigma> @
     [\<lparr>source = elementPattern ''script'', ignoreCase = True, global = True, lastIndex = 0\<rparr>]\<rparr>"
  define \<sigma>2 where "\<sigma>2 = \<sigma>1\<lparr>objects := objects \<sigma>1 @
     [\<lparr>source = elementPattern ''style'', ignoreCase = True, global = True, lastIndex = 0\<rparr>]\<rparr>"
  have 1: "call (fst (newRegExp (elementPattern ''script'') True True \<sigma>)) (symbolReplace html)
             (snd (newRegExp (elementPattern ''script'') True True \<sigma>)) = (c1, \<sigma>1)"
    by (simp add: call_new symbolReplace_fresh c1_def \<sigma>1_def)
  have 2: "call (fst (newRegExp (elementPattern ''style'') True True \<sigma>1)) (symbolReplace c1)
             (snd (newRegExp (elementPattern ''style'') True True \<sigma>1)) = (c, \<sigma>2)"
    by (simp add: call_new symbolReplace_fresh c_def \<sigma>2_def)
  have a2: "allocated \<sigma>0 \<sigma>2" using assms by (simp add: \<sigma>2_def \<sigma>1_def)
  obtain hs where hs: "execAll True headingRegex None c = Some hs"
    using execAll_total [OF consuming_patterns(1)] by blast
  obtain ps where ps: "execAll True paragraphRegex None c = Some ps"
    using execAll_total [OF consuming_patterns(2)] by blast
  obtain ls where ls: "execAll True listRegex None c = Some ls"
    using execAll_total [OF consuming_patterns(3)] by blast
  obtain qs where qs: "execAll True blockquoteRegex None c = Some qs"
    using execAll_total [OF consuming_patterns(4)] by blast
  have pure: "parseHtmlToBlocks html =
          Some (concat (map headingBlock hs) @ concat (map paragraphBlock ps) @
                concat (map listBlock ls) @ concat (map quoteBlock qs))"
    using hs ps ls qs by (simp add: parseHtmlToBlocks_def c_def c1_def)
  from execLoop_new [of headingBlock_st headingBlock, OF _ _ hs a2, of "[]"]
  obtain \<sigma>3 where 3: "execLoop (fst (newRegExp headingRegex True True \<sigma>2)) c headingBlock_st []
       (snd (newRegExp headingRegex True True \<sigma>2)) = Some (concat (map headingBlock hs), \<sigma>3)"
    and a3: "allocated \<sigma>0 \<sigma>3" by auto
  from execLoop_new [of paragraphBlock_st paragraphBlock, OF _ _ ps a3,
      of "concat (map headingBlock hs)"]
  obtain \<sigma>4 where 4: "execLoop (fst (newRegExp paragraphRegex True True \<sigma>3)) c paragraphBlock_st
       (concat (map headingBlock hs)) (snd (newRegExp paragraphRegex True True \<sigma>3)) =
       Some (concat (map headingBlock hs) @ concat (map paragraphBlock ps), \<sigma>4)"
    and a4: "allocated \<sigma>0 \<sigma>4" by auto
  from execLoop_new [of listBlock_st listBlock, OF _ _ ls a4,
      of "concat (map headingBlock hs) @ concat (map paragraphBlock ps)"]
  obtain \<sigma>5 where 5: "execLoop (fst (newRegExp listRegex True True \<sigma>4)) c listBlock_st
       (concat (map headingBlock hs) @ concat (map paragraphBlock ps))
       (snd (newRegExp listRegex True True \<sigma>4)) =
       Some (concat (map headingBlock hs) @ concat (map paragraphBlock ps) @
             concat (map listBlock ls), \<sigma>5)"
    and a5: "allocated \<sigma>0 \<sigma>5" by auto
  from execLoop_new [of quoteBlock_st quoteBlock, OF _ _ qs a5,
      of "concat (map headingBlock hs) @ concat (map paragraphBlock ps) @
          concat (map listBlock ls)"]
  obtain \<sigma>6 where 6: "execLoop (fst (newRegExp blockquoteRegex True True \<sigma>5)) c quoteBlock_st
       (concat (map headingBlock hs) @ concat (map paragraphBlock ps) @
        concat (map listBlock ls)) (snd (newRegExp blockquoteRegex True True \<sigma>5)) =
       Some (concat (map headingBlock hs) @ concat (map paragraphBlock ps) @
             concat (map listBlock ls) @ concat (map quoteBlock qs), \<sigma>6)"
    and a6: "allocated \<sigma>0 \<sigma>6" by auto
  have "parseHtmlToBlocks_st html \<sigma> =
          Some (concat (map headingBlock hs) @ concat (map paragraphBlock ps) @
                concat (map listBlock ls) @ concat (map quoteBlock qs), \<sigma>6)"
    by (simp only: parseHtmlToBlocks_st_def Let_def split_beta 1 2 3 4 5 6 fst_conv snd_conv
        option.case prod.case append_assoc)
  with pure a6 show ?thesis by blast
qed

lemma call_nth:
  "call a method \<sigma> =
     (fst (method (objects \<sigma> ! a)),
      \<sigma>\<lparr>objects := (objects \<sigma>)[a := snd (method (objects \<sigma> ! a))]\<rparr>)"
  by (simp add: call_def split_beta)

lemma extractMainContent_st_fst [simp]:
  "fst (extractMainContent_st html \<sigma>) = extractMainContent html"
  by (simp add: extractMainContent_st_def extractMainContent_def removePatterns_def split_beta
      Let_def call_nth nth_append symbolReplace_fresh symbolMatch_first split: option.splits)

lemma extractMainContent_st_allocated [simp]:
  "allocated \<sigma>0 \<sigma> \<Longrightarrow> allocated \<sigma>0 (snd (extractMainContent_st html \<sigma>))"
  by (simp add: extractMainContent_st_def removePatterns_def split_beta
      Let_def call_nth nth_append symbolReplace_fresh symbolMatch_first list_update_append
      split: option.splits)

lemma extractBlocks_st_eq:
  "\<exists>blocks \<sigma>'. extractBlocks html = Some blocks \<and>
     extractBlocks_st html \<sigma> = Some (blocks, \<sigma>') \<and> allocated \<sigma> \<sigma>'"
  using parseHtmlToBlocks_st_eq [of \<sigma> "snd (extractMainContent_st html \<sigma>)" "extractMainContent html"]
  by (simp add: extractBlocks_st_def extractBlocks_def split_beta)

subsection \<open>The question parser\<close>

lemma tryPattern_st_eq:
  "a < length (objects \<sigma>) \<Longrightarrow>
   objects \<sigma> ! a = \<lparr>source = r, ignoreCase = True, global = False, lastIndex = 0\<rparr> \<Longrightarrow>
     tryPattern_st a str \<sigma> = (tryPattern r str, \<sigma>)"
  by (simp add: tryPattern_st_def tryPattern_def split_beta call_same symbolMatch_first)

lemma lineScan_st_fst [simp]: "fst (lineScan_st letter lines \<sigma>) = lineScan letter lines"
  by (induction lines arbitrary: \<sigma>)
     (simp_all add: split_beta call_nth nth_append symbolMatch_first symbolReplace_fresh)

lemma lineScan_st_allocated [simp]:
  "allocated \<sigma>0 \<sigma> \<Longrightarrow> allocated \<sigma>0 (snd (lineScan_st letter lines \<sigma>))"
  by (induction lines arbitrary: \<sigma>)
     (simp_all add: split_beta call_nth nth_append list_update_append symbolMatch_first
        symbolReplace_fresh)

lemma extractOption_st_fst [simp]:
  "fst (extractOption_st str letter nextLetter \<sigma>) = extractOption str letter nextLetter"
  by (simp add: extractOption_st_def extractOption_def split_beta Let_def tryPattern_st_eq
      nth_append split: option.splits)

lemma extractOption_st_allocated [simp]:
  "allocated \<sigma>0 \<sigma> \<Longrightarrow> allocated \<sigma>0 (snd (extractOption_st str letter nextLetter \<sigma>))"
  by (simp add: extractOption_st_def split_beta Let_def tryPattern_st_eq
      nth_append split: option.splits)

lemma extractOption_st_grown [simp]:
  "grown \<sigma>0 \<sigma> \<Longrightarrow> grown \<sigma>0 (snd (extractOption_st str letter nextLetter \<sigma>))"
  by (rule grown_allocated [of _ \<sigma>]) simp_all

lemma parseSegment_st_fst [simp]:
  "fst (parseSegment_st questionNum questionContent \<sigma>) = parseSegment questionNum questionContent"
  by (simp add: parseSegment_st_def parseSegment_def split_beta Let_def call_new symbolMatch_first
      questionOf_def correctAnswerOf_def explanationOf_def cong: option.case_cong)

lemma parseSegment_st_grown [simp]:
  "grown \<sigma>0 \<sigma> \<Longrightarrow> grown \<sigma>0 (snd (parseSegment_st questionNum questionContent \<sigma>))"
  by (simp add: parseSegment_st_def split_beta Let_def call_new symbolMatch_first)

lemma segmentLoop_st_eq:
  "grown \<sigma>0 \<sigma> \<Longrightarrow>
     fst (segmentLoop_st ps mcqs \<sigma>) = mcqs @ segmentLoop ps \<and>
     grown \<sigma>0 (snd (segmentLoop_st ps mcqs \<sigma>))"
proof (induction ps mcqs \<sigma> rule: segmentLoop_st.induct)
  case (1 num body ps mcqs \<sigma>)
  define r where "r = parseSegment_st (parseInt num) body \<sigma>"
  have f: "fst r = parseSegment (parseInt num) body" by (simp add: r_def)
  have g: "grown \<sigma>0 (snd r)" using 1(3) by (simp add: r_def)
  show ?case
  proof (cases "fst r")
    case None
    then have "(None, snd r) = parseSegment_st (parseInt num) body \<sigma>"
      by (simp add: r_def prod_eq_iff)
    from 1(1) [OF refl this refl g] None f show ?thesis
      by (simp add: split_beta r_def [symmetric])
  next
    case (Some q)
    then have "(Some q, snd r) = parseSegment_st (parseInt num) body \<sigma>"
      by (simp add: r_def prod_eq_iff)
    from 1(2) [OF refl this refl g] Some f show ?thesis
      by (simp add: split_beta r_def [symmetric])
  qed
qed simp_all

lemma parseMCQResponse_st_fst: "fst (parseMCQResponse_st input \<sigma>) = parseMCQResponse input"
  by (simp add: parseMCQResponse_st_def parseMCQResponse_def split_beta Let_def call_new
      symbolSplit_def segmentLoop_st_eq [OF grown_refl])

lemma parseMCQResponse_st_grown: "grown \<sigma> (snd (parseMCQResponse_st input \<sigma>))"
proof -
  have "grown \<sigma> (snd (call (fst (newRegExp splitPattern True True
                 (\<sigma>\<lparr>console := console \<sigma> @ [LogParsing]\<rparr>))) (symbolSplit input)
                 (snd (newRegExp splitPattern True True
                 (\<sigma>\<lparr>console := console \<sigma> @ [LogParsing]\<rparr>)))))"
    by (simp add: call_nth symbolSplit_def grown_def)
  from segmentLoop_st_eq [OF this] show ?thesis
    by (simp add: parseMCQResponse_st_def split_beta Let_def)
qed

subsection \<open>Runs from a state that is in use\<close>

text \<open>
  A state with a pattern whose \<open>lastIndex\<close> is not 0, as a pattern shared between calls
  would be after a match. \<open>exec\<close> on this pattern misses the first paragraph: the model
  does read \<open>lastIndex\<close>.
\<close>

definition shared :: regexp where
  "shared = \<lparr>source = paragraphRegex, ignoreCase = True, global = True, lastIndex = 3\<rparr>"

definition busy :: world where
  "busy = \<lparr>objects = [shared], console = [LogParsing]\<rparr>"

lemma exec_reads_lastIndex:
  "map_option (\<lambda>(k, st, e). capture e 1) (fst (regExpExec ''<p>a</p><p>b</p>'' shared)) = Some ''b'' \<and>
   map_option (\<lambda>(k, st, e). capture e 1)
     (fst (regExpExec ''<p>a</p><p>b</p>'' (shared\<lparr>lastIndex := 0\<rparr>))) = Some ''a''"
  by code_simp

lemma busy_blocks:
  "map_option (\<lambda>(blocks, \<sigma>). (map content blocks, map lastIndex (objects \<sigma>), console \<sigma>))
     (extractBlocks_st interleaved busy) =
   Some ([''Alpha'', ''Beta'', ''A paragraph of enough text.''],
         [3, 0, 0, 0, 0, 0, 0, 0, 0, 0, 0, 0, 0, 0, 0, 0, 0, 0], [LogParsing])"
  by code_simp

lemma busy_records:
  "(\<lambda>(mcqs, \<sigma>). (map id_mcq mcqs, hd (objects \<sigma>), console \<sigma>))
     (parseMCQResponse_st twoSegments busy) =
   ([Finite 7], shared, [LogParsing, LogParsing, LogSkipping (Finite 8)])"
  by code_simp

text \<open>
  C9. Both extractions are deterministic and keep no state. From every state of the runtime
  (whatever patterns exist, whatever their \<open>lastIndex\<close>, whatever is on the console) the
  question parser returns the same records, those of \<open>parseMCQResponse\<close>, and the HTML
  extraction (\<open>extractMainContent\<close>, then \<open>parseHtmlToBlocks\<close>) ends and returns the same
  blocks. Every pattern that existed before the call is left as it was: the parser only adds
  patterns of its own and lines on the console, the HTML extraction only patterns. A second run
  from the state that the first one left returns what the first one returned.
\<close>

theorem extraction_stateless:
  "(\<forall>\<sigma>. \<exists>\<sigma>'. parseMCQResponse_st input \<sigma> = (parseMCQResponse input, \<sigma>') \<and> grown \<sigma> \<sigma>') \<and>
   (\<exists>blocks. extractBlocks html = Some blocks \<and>
      (\<forall>\<sigma>. \<exists>\<sigma>'. extractBlocks_st html \<sigma> = Some (blocks, \<sigma>') \<and> allocated \<sigma> \<sigma>')) \<and>
   fst (parseMCQResponse_st input (snd (parseMCQResponse_st input \<sigma>))) =
     fst (parseMCQResponse_st input \<sigma>) \<and>
   map_option fst (extractBlocks_st html (snd (the (extractBlocks_st html \<sigma>)))) =
     map_option fst (extractBlocks_st html \<sigma>)"
proof (intro conjI allI)
  fix \<sigma>
  show "\<exists>\<sigma>'. parseMCQResponse_st input \<sigma> = (parseMCQResponse input, \<sigma>') \<and> grown \<sigma> \<sigma>'"
    using parseMCQResponse_st_fst [of input \<sigma>] parseMCQResponse_st_grown [of \<sigma> input]
    by (intro exI [of _ "snd (parseMCQResponse_st input \<sigma>)"]) (simp add: prod_eq_iff)
next
  from extractBlocks_st_eq [of html] obtain blocks where b: "extractBlocks html = Some blocks"
    by blast
  have "\<exists>\<sigma>'. extractBlocks_st html \<sigma> = Some (blocks, \<sigma>') \<and> allocated \<sigma> \<sigma>'" for \<sigma>
    using extractBlocks_st_eq [of html \<sigma>] b by auto
  with b show "\<exists>blocks. extractBlocks html = Some blocks \<and>
      (\<forall>\<sigma>. \<exists>\<sigma>'. extractBlocks_st html \<sigma> = Some (blocks, \<sigma>') \<and> allocated \<sigma> \<sigma>')" by blast
next
  show "fst (parseMCQResponse_st input (snd (parseMCQResponse_st input \<sigma>))) =
          fst (parseMCQResponse_st input \<sigma>)"
    by (simp add: parseMCQResponse_st_fst)
next
  from extractBlocks_st_eq [of html \<sigma>] obtain blocks \<sigma>' where
    1: "extractBlocks html = Some blocks" "extractBlocks_st html \<sigma> = Some (blocks, \<sigma>')" by blast
  from extractBlocks_st_eq [of html \<sigma>'] 1(1) obtain \<sigma>'' where
    2: "extractBlocks_st html \<sigma>' = Some (blocks, \<sigma>'')" by auto
  from 1 2 show "map_option fst (extractBlocks_st html (snd (the (extractBlocks_st html \<sigma>)))) =
          map_option fst (extractBlocks_st html \<sigma>)" by simp
qed

theorem extraction_stateless_witness:
  "map id_mcq (fst (parseMCQResponse_st twoSegments busy)) = [Finite 7] \<and>
   hd (objects (snd (parseMCQResponse_st twoSegments busy))) = shared \<and>
   fst (parseMCQResponse_st twoSegments (snd (parseMCQResponse_st twoSegments busy))) =
     fst (parseMCQResponse_st twoSegments busy)"
  using extraction_stateless [of twoSegments "[]" busy] busy_records
  by (simp add: split_beta)

end
